theory Spec2Isabelle
  imports Complex_Main
begin

section \<open>Strings of the host language\<close>

text \<open>
  A JavaScript string is a sequence of UTF-16 code units. The validator trims Unicode
  white space and counts \<open>length\<close> in code units, and two of its messages contain
  non-ASCII letters, so a string is modelled as the list of its code units.
\<close>

type_synonym jsstring = "nat list"

definition ascii :: "string \<Rightarrow> jsstring" where
  "ascii s = map of_char s"

text \<open>
  The code units that \<open>String.prototype.trim\<close> strips and that the class \<open>\s\<close> of a
  regular expression matches: the WhiteSpace and LineTerminator code points of ECMAScript.
\<close>

definition is_js_space :: "nat \<Rightarrow> bool" where
  "is_js_space c \<longleftrightarrow>
     c = 9 \<or> c = 10 \<or> c = 11 \<or> c = 12 \<or> c = 13 \<or> c = 32 \<or> c = 160 \<or> c = 5760 \<or>
     (8192 \<le> c \<and> c \<le> 8202) \<or> c = 8232 \<or> c = 8233 \<or> c = 8239 \<or> c = 8287 \<or>
     c = 12288 \<or> c = 65279"

definition is_digit :: "nat \<Rightarrow> bool" where
  "is_digit c \<longleftrightarrow> 48 \<le> c \<and> c \<le> 57"

definition trim :: "jsstring \<Rightarrow> jsstring" where
  "trim s = rev (dropWhile is_js_space (rev (dropWhile is_js_space s)))"

section \<open>Regular expressions\<close>

text \<open>
  The fragment of the regular-expression language that the rule table uses: character
  classes, \<open>?\<close>, the bounded quantifier \<open>{m,n}\<close>, sequencing, and the assertions \<open>^\<close> and
  \<open>$\<close> (no \<open>m\<close> flag: start and end of the input). A matcher state is the flag "at the
  start of the input" with the rest of the input; \<open>rmatch\<close> returns every state in which a
  match of the expression can end, in backtracking order.
\<close>

datatype regex =
    Bol
  | Eol
  | Class "nat \<Rightarrow> bool"
  | Opt regex
  | Rep nat nat regex
  | Seq regex regex

type_synonym mstate = "bool \<times> jsstring"

fun rsize :: "regex \<Rightarrow> nat" where
  "rsize Bol = 1"
| "rsize Eol = 1"
| "rsize (Class p) = 1"
| "rsize (Opt r) = Suc (rsize r)"
| "rsize (Rep lo hi r) = Suc (hi + rsize r)"
| "rsize (Seq a b) = Suc (rsize a + rsize b)"

function rmatch :: "regex \<Rightarrow> mstate \<Rightarrow> mstate list" where
  "rmatch Bol st = (if fst st then [st] else [])"
| "rmatch Eol st = (if snd st = [] then [st] else [])"
| "rmatch (Class p) st =
     (case snd st of [] \<Rightarrow> [] | c # cs \<Rightarrow> if p c then [(False, cs)] else [])"
| "rmatch (Opt r) st = rmatch r st @ [st]"
| "rmatch (Rep lo 0 r) st = (if lo = 0 then [st] else [])"
| "rmatch (Rep lo (Suc hi) r) st =
     concat (map (rmatch (Rep (lo - 1) hi r)) (rmatch r st)) @ (if lo = 0 then [st] else [])"
| "rmatch (Seq a b) st = concat (map (rmatch b) (rmatch a st))"
  by pat_completeness auto
termination
  by (relation "measure (\<lambda>(r, st). rsize r)") auto

text \<open>\<open>RegExp.prototype.test\<close> without the \<open>g\<close> and \<open>y\<close> flags: a match may start anywhere.\<close>

definition regex_test :: "regex \<Rightarrow> jsstring \<Rightarrow> bool" where
  "regex_test r s = list_ex (\<lambda>i. rmatch r (i = 0, drop i s) \<noteq> []) [0..<Suc (length s)]"

section \<open>The field rule table\<close>

datatype violation = Required | MinLength | Pattern

record rule =
  required :: bool
  minLength :: "nat option"
  pattern :: "regex option"
  messages :: "violation \<Rightarrow> jsstring option"

text \<open>The character class \<open>[\d\s\-().]\<close> of the phone rule.\<close>

definition phone_class :: "nat \<Rightarrow> bool" where
  "phone_class c \<longleftrightarrow>
     is_digit c \<or> is_js_space c \<or> c = 45 \<or> c = 40 \<or> c = 41 \<or> c = 46"

text \<open>The literal \<open>/^[+]?[\d\s\-().]{7,20}$/\<close>.\<close>

definition phone_pattern :: regex where
  "phone_pattern =
     Seq Bol (Seq (Opt (Class (\<lambda>c. c = 43))) (Seq (Rep 7 20 (Class phone_class)) Eol))"

definition formName :: jsstring where
  "formName = ascii ''formName''"

definition formPhone :: jsstring where
  "formPhone = ascii ''formPhone''"

definition formMessage :: jsstring where
  "formMessage = ascii ''formMessage''"

text \<open>
  The object literal \<open>rules\<close>, as the list of its own properties in insertion order (the
  order in which \<open>Object.keys\<close> enumerates them). A constraint that a rule does not declare
  is \<open>undefined\<close> in the source: \<open>False\<close> for \<open>required\<close>, \<open>None\<close> otherwise.
\<close>

definition rules :: "(jsstring \<times> rule) list" where
  "rules =
    [(formName,
      \<lparr>required = True, minLength = Some 2, pattern = None,
       messages = [Required \<mapsto> ascii ''Ime i prezime su obavezni.'',
                   MinLength \<mapsto> ascii ''Unesite puno ime (minimum 2 karaktera).'']\<rparr>),
     (formPhone,
      \<lparr>required = True, minLength = None, pattern = Some phone_pattern,
       messages = [Required \<mapsto> ascii ''Broj telefona je obavezan.'',
                   Pattern \<mapsto> ascii ''Unesite ispravan broj telefona.'']\<rparr>),
     (formMessage,
      \<lparr>required = True, minLength = Some 10, pattern = None,
       messages = [Required \<mapsto> ascii ''Opis problema je obavezan.'',
                   MinLength \<mapsto> ascii ''Opi'' @ [353]
                     @ ascii ''ite problem detaljnije (min. 10 karaktera).'']\<rparr>)]"

definition rule_keys :: "jsstring list" where
  "rule_keys = map fst rules"

text \<open>
  \<open>rules[id]\<close> also reaches the properties that an object literal inherits from
  \<open>Object.prototype\<close>. Each of them is a function or an object, hence truthy, and has none
  of the properties \<open>required\<close>, \<open>minLength\<close>, \<open>pattern\<close>: it reads as a rule without
  constraints.
\<close>

definition object_prototype_keys :: "jsstring list" where
  "object_prototype_keys = map ascii
     [''constructor'', ''hasOwnProperty'', ''isPrototypeOf'', ''propertyIsEnumerable'',
      ''toLocaleString'', ''toString'', ''valueOf'', ''__proto__'', ''__defineGetter__'',
      ''__defineSetter__'', ''__lookupGetter__'', ''__lookupSetter__'']"

definition no_constraints :: rule where
  "no_constraints = \<lparr>required = False, minLength = None, pattern = None, messages = Map.empty\<rparr>"

definition rules_get :: "jsstring \<Rightarrow> rule option" where
  "rules_get fid =
     (case map_of rules fid of
        Some r \<Rightarrow> Some r
      | None \<Rightarrow> if fid \<in> set object_prototype_keys then Some no_constraints else None)"

section \<open>The field validator\<close>

text \<open>
  \<open>validateField(field)\<close> reads \<open>field.id\<close> and \<open>field.value\<close>; the model takes the two.
  The result is a string, or \<open>None\<close> for \<open>undefined\<close> (a rule whose \<open>messages\<close> lacks the
  entry of a constraint it declares). A \<open>minLength\<close> of \<open>0\<close> is falsy and skips the test.
\<close>

definition validateField :: "jsstring \<Rightarrow> jsstring \<Rightarrow> jsstring option" where
  "validateField fid raw =
     (case rules_get fid of
        None \<Rightarrow> Some []
      | Some rule \<Rightarrow>
          let val = trim raw in
          if required rule \<and> val = [] then messages rule Required
          else if val \<noteq> [] \<and>
                  (case minLength rule of None \<Rightarrow> False | Some n \<Rightarrow> n \<noteq> 0 \<and> length val < n)
               then messages rule MinLength
          else if val \<noteq> [] \<and>
                  (case pattern rule of None \<Rightarrow> False | Some r \<Rightarrow> \<not> regex_test r val)
               then messages rule Pattern
          else Some [])"

text \<open>Truthiness of a value that is a string or \<open>undefined\<close>.\<close>

definition truthy :: "jsstring option \<Rightarrow> bool" where
  "truthy m = (case m of None \<Rightarrow> False | Some s \<Rightarrow> s \<noteq> [])"

text \<open>
  The phone rule as section 4.1 of the specification words it: an optional leading \<open>+\<close>,
  then digits, spaces, hyphens, parentheses and periods, the whole string being between 7
  and 20 characters long.
\<close>

definition spec_phone_char :: "nat \<Rightarrow> bool" where
  "spec_phone_char c \<longleftrightarrow> is_digit c \<or> c = 32 \<or> c = 45 \<or> c = 40 \<or> c = 41 \<or> c = 46"

definition spec_phone_accepts :: "jsstring \<Rightarrow> bool" where
  "spec_phone_accepts s \<longleftrightarrow>
     list_all spec_phone_char (case s of [] \<Rightarrow> [] | c # cs \<Rightarrow> if c = 43 then cs else s) \<and>
     7 \<le> length s \<and> length s \<le> 20"

text \<open>What the literal accepts, read off its parts: the quantifier counts the code units
  after the optional \<open>+\<close>, and \<open>\s\<close> is any white space.\<close>

definition phone_body :: "jsstring \<Rightarrow> jsstring" where
  "phone_body s = (case s of [] \<Rightarrow> [] | c # cs \<Rightarrow> if c = 43 then cs else s)"

definition phone_ok :: "jsstring \<Rightarrow> bool" where
  "phone_ok s \<longleftrightarrow>
     7 \<le> length (phone_body s) \<and> length (phone_body s) \<le> 20 \<and>
     list_all phone_class (phone_body s)"

section \<open>The form controller\<close>

text \<open>
  A tracked input of the form. \<open>el_default\<close> is the value that \<open>form.reset()\<close> restores;
  \<open>is_invalid\<close> is the class \<open>is-invalid\<close>; \<open>aria_invalid\<close> the attribute of that name (absent
  until first set); \<open>error_text\<close> the text of the element \<open>#<id>Error\<close>, \<open>None\<close> when the page
  has no such element.
\<close>

record field =
  el_value :: jsstring
  el_default :: jsstring
  is_invalid :: bool
  aria_invalid :: "jsstring option"
  error_text :: "jsstring option"

text \<open>What the submit control shows: set through \<open>textContent\<close> or through \<open>innerHTML\<close>.\<close>

datatype content = Text jsstring | Html jsstring

record button =
  disabled :: bool
  content :: content
  opacity :: jsstring
  submitting :: bool

datatype task = SubmitDone | HideSuccess | AddSubmitting | RemoveSubmitting

datatype listener = ContactSubmit | PatchSubmit

text \<open>
  The part of the document and of the runtime that the form controller reads and writes.
  \<open>form_fields\<close> maps an identifier to the element that \<open>qs('#id', form)\<close> finds; \<open>successMsg\<close>
  holds the \<open>hidden\<close> flag of the success notice; \<open>prevented\<close> is the \<open>defaultPrevented\<close>
  flag of the submit event being dispatched; \<open>timers\<close> is the queue of pending timeouts,
  ordered by due time and, at equal due times, by time of scheduling; \<open>now\<close> is the clock
  in milliseconds; \<open>uncaught\<close> counts the exceptions that escaped a listener or callback.
\<close>

record page =
  has_form :: bool
  form_fields :: "jsstring \<Rightarrow> field option"
  submitBtn :: "button option"
  successMsg :: "bool option"
  focused :: "jsstring option"
  prevented :: bool
  submit_listeners :: "listener list"
  timers :: "(nat \<times> task) list"
  now :: nat
  uncaught :: nat

definition sending_caption :: jsstring where
  "sending_caption = [352] @ ascii ''aljem...''"

definition submit_markup :: jsstring where
  "submit_markup =
     [10] @ ascii ''        <svg viewBox=\"0 0 24 24\" fill=\"none\" stroke=\"currentColor\" stroke-width=\"2.2\" aria-hidden=\"true\">''
     @ [10] @ ascii ''          <line x1=\"22\" y1=\"2\" x2=\"11\" y2=\"13\"/>''
     @ [10] @ ascii ''          <polygon points=\"22 2 15 22 11 13 2 9 22 2\"/>''
     @ [10] @ ascii ''        </svg>''
     @ [10] @ ascii ''        Po'' @ [353] @ ascii ''alji upit''
     @ [10] @ ascii ''      ''"

definition setFieldError :: "field \<Rightarrow> jsstring option \<Rightarrow> field" where
  "setFieldError f message =
     (if truthy message
      then f\<lparr>is_invalid := True, aria_invalid := Some (ascii ''true''),
             error_text := map_option (\<lambda>_. the message) (error_text f)\<rparr>
      else f\<lparr>is_invalid := False, aria_invalid := Some (ascii ''false''),
             error_text := map_option (\<lambda>_. []) (error_text f)\<rparr>)"

text \<open>The two listeners that \<open>initContactForm\<close> attaches to the tracked field \<open>k\<close>.\<close>

definition blur_listener :: "jsstring \<Rightarrow> page \<Rightarrow> page" where
  "blur_listener k s =
     (case form_fields s k of
        None \<Rightarrow> s
      | Some f \<Rightarrow> s\<lparr>form_fields := (form_fields s)(k \<mapsto> setFieldError f (validateField k (el_value f)))\<rparr>)"

definition input_listener :: "jsstring \<Rightarrow> page \<Rightarrow> page" where
  "input_listener k s =
     (case form_fields s k of
        None \<Rightarrow> s
      | Some f \<Rightarrow>
          if is_invalid f
          then s\<lparr>form_fields := (form_fields s)(k \<mapsto> setFieldError f (validateField k (el_value f)))\<rparr>
          else s)"

text \<open>The user edits field \<open>k\<close> to the value \<open>v\<close>: the value changes, then \<open>input\<close> fires.\<close>

definition input_event :: "jsstring \<Rightarrow> jsstring \<Rightarrow> page \<Rightarrow> page" where
  "input_event k v s =
     (case form_fields s k of
        None \<Rightarrow> s
      | Some f \<Rightarrow>
          if k \<in> set rule_keys
          then input_listener k (s\<lparr>form_fields := (form_fields s)(k \<mapsto> f\<lparr>el_value := v\<rparr>)\<rparr>)
          else s\<lparr>form_fields := (form_fields s)(k \<mapsto> f\<lparr>el_value := v\<rparr>)\<rparr>)"

text \<open>Field \<open>k\<close> loses focus: \<open>blur\<close> fires on it.\<close>

definition blur_event :: "jsstring \<Rightarrow> page \<Rightarrow> page" where
  "blur_event k s =
     (let s' = (if k \<in> set rule_keys then blur_listener k s else s)
      in if focused s' = Some k then s'\<lparr>focused := None\<rparr> else s')"

text \<open>
  \<open>element.focus()\<close>: nothing when the element has the focus already; otherwise the
  element that had it receives \<open>blur\<close> first.
\<close>

definition focus :: "jsstring \<Rightarrow> page \<Rightarrow> page" where
  "focus k s =
     (case focused s of
        None \<Rightarrow> s\<lparr>focused := Some k\<rparr>
      | Some g \<Rightarrow>
          if g = k then s
          else (if g \<in> set rule_keys then blur_listener g s else s)\<lparr>focused := Some k\<rparr>)"

text \<open>\<open>setTimeout(task, d)\<close>: the new timer goes behind every pending timer due no later.\<close>

fun insert_timer :: "nat \<times> task \<Rightarrow> (nat \<times> task) list \<Rightarrow> (nat \<times> task) list" where
  "insert_timer x [] = [x]"
| "insert_timer x (y # ys) = (if fst y \<le> fst x then y # insert_timer x ys else x # y # ys)"

definition setTimeout :: "nat \<Rightarrow> task \<Rightarrow> page \<Rightarrow> page" where
  "setTimeout d t s = s\<lparr>timers := insert_timer (now s + d, t) (timers s)\<rparr>"

text \<open>
  The loop of the submit handler over \<open>Object.keys(rules)\<close>, with its two local variables
  \<open>isValid\<close> and \<open>firstInvalidField\<close>.
\<close>

fun validate_all ::
  "jsstring list \<Rightarrow> page \<Rightarrow> bool \<Rightarrow> jsstring option \<Rightarrow> page \<times> bool \<times> jsstring option" where
  "validate_all [] s isValid firstInvalid = (s, isValid, firstInvalid)"
| "validate_all (k # ks) s isValid firstInvalid =
     (case form_fields s k of
        None \<Rightarrow> validate_all ks s isValid firstInvalid
      | Some f \<Rightarrow>
          let error = validateField k (el_value f);
              s' = s\<lparr>form_fields := (form_fields s)(k \<mapsto> setFieldError f error)\<rparr>
          in if truthy error
             then validate_all ks s' False (if firstInvalid = None then Some k else firstInvalid)
             else validate_all ks s' isValid firstInvalid)"

text \<open>The submit listener of \<open>initContactForm\<close>.\<close>

definition contact_submit :: "page \<Rightarrow> page" where
  "contact_submit s0 =
     (let s = s0\<lparr>prevented := True\<rparr>;
          (s1, isValid, firstInvalid) = validate_all rule_keys s True None
      in if \<not> isValid
         then (case firstInvalid of None \<Rightarrow> s1 | Some k \<Rightarrow> focus k s1)
         else (case submitBtn s1 of
                 None \<Rightarrow> s1\<lparr>uncaught := Suc (uncaught s1)\<rparr>
               | Some b \<Rightarrow>
                   setTimeout 900 SubmitDone
                     (s1\<lparr>submitBtn := Some (b\<lparr>disabled := True, content := Text sending_caption,
                                                  opacity := ascii ''0.7''\<rparr>)\<rparr>)))"

text \<open>The submit listener of \<open>patchFormSubmitButton\<close>.\<close>

definition patch_submit :: "page \<Rightarrow> page" where
  "patch_submit s = setTimeout 900 RemoveSubmitting (setTimeout 0 AddSubmitting s)"

fun clear_all :: "jsstring list \<Rightarrow> page \<Rightarrow> page" where
  "clear_all [] s = s"
| "clear_all (k # ks) s =
     (case form_fields s k of
        None \<Rightarrow> clear_all ks s
      | Some f \<Rightarrow> clear_all ks (s\<lparr>form_fields := (form_fields s)(k \<mapsto> setFieldError f (Some []))\<rparr>))"

text \<open>\<open>form.reset()\<close>: every control of the form returns to its default value.\<close>

definition form_reset :: "page \<Rightarrow> page" where
  "form_reset s = s\<lparr>form_fields := (\<lambda>k. map_option (\<lambda>f. f\<lparr>el_value := el_default f\<rparr>) (form_fields s k))\<rparr>"

text \<open>The callbacks of the four timeouts.\<close>

fun run_task :: "task \<Rightarrow> page \<Rightarrow> page" where
  "run_task SubmitDone s =
     (let s1 = form_reset s in
      case submitBtn s1 of
        None \<Rightarrow> s1\<lparr>uncaught := Suc (uncaught s1)\<rparr>
      | Some b \<Rightarrow>
          let s2 = s1\<lparr>submitBtn := Some (b\<lparr>disabled := False, content := Html submit_markup,
                                               opacity := []\<rparr>)\<rparr>;
              s3 = (case successMsg s2 of
                      None \<Rightarrow> s2
                    | Some h \<Rightarrow> setTimeout 6000 HideSuccess (s2\<lparr>successMsg := Some False\<rparr>))
          in clear_all rule_keys s3)"
| "run_task HideSuccess s = s\<lparr>successMsg := map_option (\<lambda>_. True) (successMsg s)\<rparr>"
| "run_task AddSubmitting s =
     s\<lparr>submitBtn := map_option (\<lambda>b. b\<lparr>submitting := True\<rparr>) (submitBtn s)\<rparr>"
| "run_task RemoveSubmitting s =
     s\<lparr>submitBtn := map_option (\<lambda>b. b\<lparr>submitting := False\<rparr>) (submitBtn s)\<rparr>"

text \<open>
  The event loop up to the time \<open>t\<close>: the pending timers due by then fire in queue order,
  each at its due time (or at once when it is overdue), and the clock ends at \<open>t\<close>.
\<close>

fun task_weight :: "nat \<times> task \<Rightarrow> nat" where
  "task_weight (d, SubmitDone) = 2"
| "task_weight (d, t) = 1"

function run_until :: "nat \<Rightarrow> page \<Rightarrow> page" where
  "run_until t s =
     (case timers s of
        [] \<Rightarrow> s\<lparr>now := max (now s) t\<rparr>
      | (due, task) # rest \<Rightarrow>
          if due \<le> t
          then run_until t (run_task task (s\<lparr>timers := rest, now := max (now s) due\<rparr>))
          else s\<lparr>now := max (now s) t\<rparr>)"
  by pat_completeness auto
termination
proof (relation "measure (\<lambda>(t, s). sum_list (map task_weight (timers s)))")
  show "wf (measure (\<lambda>(t, s). sum_list (map task_weight (timers s))))"
    by simp
next
  fix t :: nat and s :: page and x :: "nat \<times> task" and rest due task
  assume ts: "timers s = x # rest" and x: "(due, task) = x"
  have ins: "\<And>y ys. sum_list (map task_weight (insert_timer y ys))
                  = task_weight y + sum_list (map task_weight ys)"
  proof -
    fix y :: "nat \<times> task" and ys
    show "sum_list (map task_weight (insert_timer y ys))
            = task_weight y + sum_list (map task_weight ys)"
      by (induction ys) auto
  qed
  have clr: "\<And>ks u. timers (clear_all ks u) = timers u"
  proof -
    fix ks u
    show "timers (clear_all ks u) = timers u"
      by (induction ks arbitrary: u) (auto split: option.splits)
  qed
  have "sum_list (map task_weight
          (timers (run_task task (s\<lparr>timers := rest, now := max (now s) due\<rparr>))))
        < task_weight (due, task) + sum_list (map task_weight rest)"
    by (cases task)
      (auto simp: Let_def clr ins setTimeout_def form_reset_def split: option.splits)
  with ts x
  show "((t, run_task task (s\<lparr>timers := rest, now := max (now s) due\<rparr>)), (t, s))
          \<in> measure (\<lambda>(t, s). sum_list (map task_weight (timers s)))"
    by auto
qed

text \<open>
  The submit event: the listeners run in the order of their registration, on a fresh
  event.
\<close>

fun run_listener :: "listener \<Rightarrow> page \<Rightarrow> page" where
  "run_listener ContactSubmit s = contact_submit s"
| "run_listener PatchSubmit s = patch_submit s"

definition submit_event :: "page \<Rightarrow> page" where
  "submit_event s = fold run_listener (submit_listeners s) (s\<lparr>prevented := False\<rparr>)"

text \<open>
  The registration of the submit listeners. \<open>initContactForm\<close> needs the form,
  \<open>patchFormSubmitButton\<close> the form and the submit control. The ready handler calls
  \<open>initContactForm\<close>, then \<open>patchFormSubmitButton\<close>; the last line of the script calls
  \<open>patchFormSubmitButton\<close> once more. When the script runs while the document is still
  loading, the ready handler runs after that last line, otherwise before it; \<open>early\<close> tells
  whether the form is in the document already when the last line runs.
\<close>

definition initContactForm :: "page \<Rightarrow> page" where
  "initContactForm s =
     (if \<not> has_form s then s
      else s\<lparr>submit_listeners := submit_listeners s @ [ContactSubmit]\<rparr>)"

definition patchFormSubmitButton :: "page \<Rightarrow> page" where
  "patchFormSubmitButton s =
     (if \<not> has_form s \<or> submitBtn s = None then s
      else s\<lparr>submit_listeners := submit_listeners s @ [PatchSubmit]\<rparr>)"

definition onReady_form_part :: "page \<Rightarrow> page" where
  "onReady_form_part s = patchFormSubmitButton (initContactForm s)"

definition script_form_part :: "bool \<Rightarrow> bool \<Rightarrow> page \<Rightarrow> page" where
  "script_form_part loading early s =
     (if \<not> loading then patchFormSubmitButton (onReady_form_part s)
      else if early then onReady_form_part (patchFormSubmitButton s)
      else onReady_form_part s)"

text \<open>The orders of registration that result on a page with a form and a submit control.\<close>

definition listener_orders :: "listener list list" where
  "listener_orders =
     [[ContactSubmit, PatchSubmit, PatchSubmit], [PatchSubmit, ContactSubmit, PatchSubmit],
      [ContactSubmit, PatchSubmit]]"

text \<open>
  Notions used to state the claims about the form: a tracked field of the page is invalid
  when the validator returns a message for its current value; \<open>first_invalid\<close> is the first
  such field in the order of the rule table; \<open>marked k f\<close> is the field as one validation
  with error rendering leaves it, and \<open>validated s\<close> the page with every tracked field so
  treated.
\<close>

definition invalid_at :: "page \<Rightarrow> jsstring \<Rightarrow> bool" where
  "invalid_at s k =
     (case form_fields s k of None \<Rightarrow> False | Some f \<Rightarrow> truthy (validateField k (el_value f)))"

definition first_invalid :: "page \<Rightarrow> jsstring option" where
  "first_invalid s = find (invalid_at s) rule_keys"

definition marked :: "jsstring \<Rightarrow> field \<Rightarrow> field" where
  "marked k f = setFieldError f (validateField k (el_value f))"

definition validated :: "page \<Rightarrow> page" where
  "validated s =
     s\<lparr>form_fields :=
         (\<lambda>k. if k \<in> set rule_keys then map_option (marked k) (form_fields s k)
              else form_fields s k)\<rparr>"

declare run_until.simps [simp del]

text \<open>
  A page to evaluate the model on: the three tracked inputs with the values \<open>n\<close>, \<open>p\<close> and
  \<open>m\<close>, each with its error element, the submit control showing the default markup, the
  success notice hidden, and the listeners that the script registers.
\<close>

definition example_field :: "jsstring \<Rightarrow> field" where
  "example_field v =
     \<lparr>el_value = v, el_default = [], is_invalid = False, aria_invalid = None,
      error_text = Some []\<rparr>"

definition example_page :: "jsstring \<Rightarrow> jsstring \<Rightarrow> jsstring \<Rightarrow> page" where
  "example_page n p m =
     \<lparr>has_form = True,
      form_fields = [formName \<mapsto> example_field n, formPhone \<mapsto> example_field p,
                     formMessage \<mapsto> example_field m],
      submitBtn = Some \<lparr>disabled = False, content = Html submit_markup, opacity = [],
                         submitting = False\<rparr>,
      successMsg = Some True,
      focused = None,
      prevented = False,
      submit_listeners = [ContactSubmit, PatchSubmit, PatchSubmit],
      timers = [],
      now = 0,
      uncaught = 0\<rparr>"

text \<open>
  What no timeout callback changes: which of the elements exist, the default values of the
  fields, and that the clock does not run backwards.
\<close>

definition same_shape :: "page \<Rightarrow> page \<Rightarrow> bool" where
  "same_shape s s' \<longleftrightarrow>
     (submitBtn s = None \<longleftrightarrow> submitBtn s' = None) \<and>
     (successMsg s = None \<longleftrightarrow> successMsg s' = None) \<and>
     (\<forall>k. rel_option (\<lambda>f f'. el_default f' = el_default f \<and>
                              (error_text f' = None \<longleftrightarrow> error_text f = None))
            (form_fields s k) (form_fields s' k)) \<and>
     now s \<le> now s'"

text \<open>
  \<open>ends_block Q C t\<close>: in the queue \<open>Q\<close>, the timers \<open>C\<close> are the last ones that fire by the
  time \<open>t\<close>; what precedes them is due by \<open>t\<close>, what follows them starts with a later timer.
\<close>

definition ends_block :: "(nat \<times> task) list \<Rightarrow> (nat \<times> task) list \<Rightarrow> nat \<Rightarrow> bool" where
  "ends_block Q C t \<longleftrightarrow>
     (\<exists>A B. Q = A @ C @ B \<and> (\<forall>y\<in>set A. fst y \<le> t) \<and> (B = [] \<or> t < fst (hd B)))"


text \<open>
  The queues of timeouts that the script can build. Every callback is scheduled with a
  fixed delay, so a pending timer is due no later than that delay from now, and the queue
  is ordered by due time. A page is \<open>quiet\<close> when no completion of a submission and no
  hiding of the notice is pending.
\<close>

fun delay :: "task \<Rightarrow> nat" where
  "delay SubmitDone = 900"
| "delay HideSuccess = 6000"
| "delay AddSubmitting = 0"
| "delay RemoveSubmitting = 900"

definition well_timed :: "page \<Rightarrow> bool" where
  "well_timed s \<longleftrightarrow>
     sorted (map fst (timers s)) \<and> list_all (\<lambda>(d, x). d \<le> now s + delay x) (timers s)"

definition quiet :: "page \<Rightarrow> bool" where
  "quiet s \<longleftrightarrow> list_all (\<lambda>(d, x). x \<noteq> SubmitDone \<and> x \<noteq> HideSuccess) (timers s)"

text \<open>
  A second submission while the notice of a first one is still visible: the form of the
  example page is submitted with valid values at the time 0; at the time 5000 the user has
  filled the form in again.
\<close>

definition example_resubmit :: page where
  "example_resubmit =
     input_event formMessage (ascii ''Curi slavina u kuhinji.'')
       (input_event formPhone (ascii ''+381 64 123 4567'')
         (input_event formName (ascii ''Ana Anic'')
           (run_until 5000
             (submit_event (example_page (ascii ''Ana Anic'') (ascii ''+381 64 123 4567'')
                (ascii ''Curi slavina u kuhinji.''))))))"

text \<open>
  The pages that the events of the model lead to, from a page on which no timeout is
  pending: submits, edits, losses of focus, and the passing of time.
\<close>

inductive reachable :: "page \<Rightarrow> bool" where
  start: "timers s = [] \<Longrightarrow> reachable s"
| submit: "reachable s \<Longrightarrow> reachable (submit_event s)"
| input: "reachable s \<Longrightarrow> reachable (input_event k v s)"
| blur: "reachable s \<Longrightarrow> reachable (blur_event k s)"
| wait: "reachable s \<Longrightarrow> reachable (run_until t s)"
section \<open>The reveal controllers\<close>

text \<open>
  The selectors by which the reveal controllers find their elements:
  \<open>[data-animate="fade-up"]\<close>, \<open>.why-card\<close>, \<open>.service-card\<close>, \<open>.process-step\<close>,
  \<open>.testimonial-card\<close>, \<open>.section-header\<close>, \<open>.process-step__connector\<close>, \<open>.area__list\<close>.
\<close>

datatype sel =
  FadeUp | WhyCard | ServiceCard | ProcessStep | TestimonialCard | SectionHeader | Connector
  | AreaList

text \<open>The controllers that set an inline transition, staggered by the index of the element.\<close>

datatype stagger = ProcessStagger | ServiceStagger | TestimonialStagger

text \<open>
  An element of the document: the selectors it matches, the classes \<open>is-visible\<close> and
  \<open>is-connector-visible\<close>, the inline styles \<open>opacity\<close> and \<open>transform\<close> (empty when unset), the
  inline transition (kept as the controller and the index that its text is computed
  from), and the position in the document of the element that \<open>closest('.process-step')\<close>
  returns.
\<close>

record elem =
  matches :: "sel list"
  is_visible :: bool
  is_connector_visible :: bool
  style_opacity :: jsstring
  style_transform :: jsstring
  style_transition :: "(stagger \<times> nat) option"
  closest_step :: "nat option"

text \<open>
  What the callback of an observer does with an intersecting entry: add \<open>is-visible\<close> to the
  target, set the revealed inline styles of the target, add \<open>is-connector-visible\<close> to the
  process step around the target, or add \<open>is-visible\<close> to the one list that
  \<open>initAreaListReveal\<close> found.
\<close>

datatype action = MarkVisible | StyleReveal | MarkConnector | MarkList nat

record observer =
  act :: action
  targets :: "nat list"

text \<open>
  The document with the observers created so far, and the runtime: whether
  \<open>IntersectionObserver\<close> exists, whether the user prefers reduced motion, whether the
  viewport is at least 800px wide, whether \<open>#stickyCta\<close> and \<open>#hero\<close> both exist. \<open>thrown\<close>
  is set when an exception has ended the running script or callback.
\<close>

record view =
  els :: "elem list"
  observers :: "observer list"
  has_IO :: bool
  reduced_motion :: bool
  wide :: bool
  sticky_hero :: bool
  thrown :: bool

definition qsa :: "sel \<Rightarrow> view \<Rightarrow> nat list" where
  "qsa c v = filter (\<lambda>i. c \<in> set (matches (els v ! i))) [0..<length (els v)]"

definition upd_el :: "nat \<Rightarrow> (elem \<Rightarrow> elem) \<Rightarrow> view \<Rightarrow> view" where
  "upd_el i f v = v\<lparr>els := (els v)[i := f (els v ! i)]\<rparr>"

definition add_visible :: "nat \<Rightarrow> view \<Rightarrow> view" where
  "add_visible i v = upd_el i (\<lambda>e. e\<lparr>is_visible := True\<rparr>) v"

definition observe :: "action \<Rightarrow> nat list \<Rightarrow> view \<Rightarrow> view" where
  "observe a ts v = v\<lparr>observers := observers v @ [\<lparr>act = a, targets = remdups ts\<rparr>]\<rparr>"

text \<open>A statement after which the script continues only when nothing has been thrown.\<close>

definition and_then :: "(view \<Rightarrow> view) \<Rightarrow> (view \<Rightarrow> view) \<Rightarrow> view \<Rightarrow> view" where
  "and_then f g v = (let v' = f v in if thrown v' then v' else g v')"

text \<open>
  \<open>initStickyCta\<close> constructs its observer without testing that the class exists. That
  observer switches a class of \<open>#stickyCta\<close> on and off and reveals nothing; only its
  construction is modelled.
\<close>

definition initStickyCta :: "view \<Rightarrow> view" where
  "initStickyCta v =
     (if \<not> sticky_hero v then v
      else if \<not> has_IO v then v\<lparr>thrown := True\<rparr>
      else v)"

definition initScrollAnimations :: "view \<Rightarrow> view" where
  "initScrollAnimations v =
     (let allObserved = qsa FadeUp v @ qsa WhyCard v in
      if allObserved = [] \<or> \<not> has_IO v then fold add_visible allObserved v
      else observe MarkVisible allObserved v)"

text \<open>The staggered controllers hide their elements first, then observe them.\<close>

definition set_initial :: "stagger \<Rightarrow> jsstring \<Rightarrow> nat \<times> nat \<Rightarrow> view \<Rightarrow> view" where
  "set_initial c tr p v =
     upd_el (snd p)
       (\<lambda>e. e\<lparr>style_opacity := ascii ''0'', style_transform := tr,
               style_transition := Some (c, fst p)\<rparr>) v"

definition staggered_reveal :: "sel \<Rightarrow> stagger \<Rightarrow> jsstring \<Rightarrow> view \<Rightarrow> view" where
  "staggered_reveal c g tr v =
     (if reduced_motion v then v
      else let xs = qsa c v in
        if xs = [] \<or> \<not> has_IO v then v
        else observe StyleReveal xs (fold (set_initial g tr) (enumerate 0 xs) v))"

definition initProcessReveal :: "view \<Rightarrow> view" where
  "initProcessReveal = staggered_reveal ProcessStep ProcessStagger (ascii ''translateY(24px)'')"

definition initServiceCardReveal :: "view \<Rightarrow> view" where
  "initServiceCardReveal = staggered_reveal ServiceCard ServiceStagger (ascii ''translateY(20px)'')"

definition initTestimonialReveal :: "view \<Rightarrow> view" where
  "initTestimonialReveal =
     staggered_reveal TestimonialCard TestimonialStagger (ascii ''translateY(18px)'')"

definition class_reveal :: "sel \<Rightarrow> view \<Rightarrow> view" where
  "class_reveal c v =
     (if reduced_motion v then v
      else let xs = qsa c v in
        if xs = [] \<or> \<not> has_IO v then v else observe MarkVisible xs v)"

definition initSectionHeaderReveal :: "view \<Rightarrow> view" where
  "initSectionHeaderReveal = class_reveal SectionHeader"

definition initTestimonialSlide :: "view \<Rightarrow> view" where
  "initTestimonialSlide = class_reveal TestimonialCard"

definition initConnectorDraw :: "view \<Rightarrow> view" where
  "initConnectorDraw v =
     (if reduced_motion v then v
      else if \<not> wide v then v
      else let xs = qsa Connector v in
        if xs = [] \<or> \<not> has_IO v then v else observe MarkConnector xs v)"

definition initAreaListReveal :: "view \<Rightarrow> view" where
  "initAreaListReveal v =
     (if reduced_motion v then v
      else case qsa AreaList v of
             [] \<Rightarrow> v
           | l # _ \<Rightarrow> if \<not> has_IO v then v else observe (MarkList l) [l] v)"

text \<open>The branch of the ready handler for users who prefer reduced motion.\<close>

definition show_now :: "nat \<Rightarrow> view \<Rightarrow> view" where
  "show_now i v =
     upd_el i (\<lambda>e. e\<lparr>style_opacity := ascii ''1'', style_transform := ascii ''none'',
                     is_visible := True\<rparr>) v"

definition force_show :: "view \<Rightarrow> view" where
  "force_show v =
     (let xs = filter (\<lambda>i. \<exists>c\<in>set [FadeUp, WhyCard, ServiceCard, ProcessStep, TestimonialCard].
                               c \<in> set (matches (els v ! i)))
                 [0..<length (els v)];
          v' = fold show_now xs v
      in fold add_visible (qsa SectionHeader v') v')"

text \<open>
  The reveal controllers in the ready handler, after \<open>initStickyCta\<close>, and in the last lines
  of the script, which start five of them once more.
\<close>

definition onReady_reveal :: "view \<Rightarrow> view" where
  "onReady_reveal =
     and_then initStickyCta
       (\<lambda>v. if \<not> reduced_motion v
            then (and_then initScrollAnimations
                  (and_then initProcessReveal
                  (and_then initServiceCardReveal
                  (and_then initTestimonialReveal
                  (and_then initSectionHeaderReveal
                  (and_then initTestimonialSlide
                  (and_then initConnectorDraw initAreaListReveal))))))) v
            else force_show v)"

definition last_lines_reveal :: "view \<Rightarrow> view" where
  "last_lines_reveal v =
     (if \<not> reduced_motion v
      then (and_then initSectionHeaderReveal
            (and_then initTestimonialSlide
            (and_then initConnectorDraw initAreaListReveal))) v
      else v)"

text \<open>
  The script as a whole. When the document is complete the ready handler runs at once,
  and an exception in it ends the script before its last lines; when the document is
  still loading the last lines run first, on the elements parsed so far (all of them when
  \<open>early\<close>, none otherwise), and the ready handler runs later as an event listener.
\<close>

definition script_reveal :: "bool \<Rightarrow> bool \<Rightarrow> view \<Rightarrow> view" where
  "script_reveal loading early v =
     (if \<not> loading then and_then onReady_reveal last_lines_reveal v
      else onReady_reveal ((if early then last_lines_reveal v else v)\<lparr>thrown := False\<rparr>))"

text \<open>\<open>observer.unobserve(target)\<close> on the observer at position \<open>i\<close>.\<close>

definition unobserve :: "nat \<Rightarrow> nat \<Rightarrow> view \<Rightarrow> view" where
  "unobserve i t v =
     v\<lparr>observers :=
         (observers v)[i := (observers v ! i)\<lparr>targets := removeAll t (targets (observers v ! i))\<rparr>]\<rparr>"

text \<open>
  The callback of the observer at position \<open>i\<close> on one entry \<open>(target, isIntersecting)\<close>.
  The connector callback dereferences the result of \<open>closest\<close> and throws when there is no
  process step around the target.
\<close>

definition on_entry :: "nat \<Rightarrow> action \<Rightarrow> nat \<times> bool \<Rightarrow> view \<Rightarrow> view" where
  "on_entry i a e v =
     (if thrown v \<or> \<not> snd e then v
      else case a of
        MarkVisible \<Rightarrow> unobserve i (fst e) (add_visible (fst e) v)
      | StyleReveal \<Rightarrow>
          unobserve i (fst e)
            (upd_el (fst e) (\<lambda>x. x\<lparr>style_opacity := ascii ''1'',
                                     style_transform := ascii ''translateY(0)''\<rparr>) v)
      | MarkConnector \<Rightarrow>
          (case closest_step (els v ! fst e) of
             None \<Rightarrow> v\<lparr>thrown := True\<rparr>
           | Some p \<Rightarrow>
               unobserve i (fst e) (upd_el p (\<lambda>x. x\<lparr>is_connector_visible := True\<rparr>) v))
      | MarkList l \<Rightarrow> unobserve i l (add_visible l v))"

text \<open>
  The callback on a batch of entries: \<open>entries.forEach\<close>, except for the list observer,
  whose callback looks at the first entry only.
\<close>

definition callback :: "nat \<Rightarrow> (nat \<times> bool) list \<Rightarrow> view \<Rightarrow> view" where
  "callback i entries v =
     (if i \<ge> length (observers v) then v
      else let a = act (observers v ! i);
               v0 = v\<lparr>thrown := False\<rparr>
           in case a of
                MarkList l \<Rightarrow> (case entries of [] \<Rightarrow> v0 | e # _ \<Rightarrow> on_entry i a e v0)
              | _ \<Rightarrow> fold (on_entry i a) entries v0)"

text \<open>
  The browser reports to an observer only targets that it observes at that moment, and
  only elements of the document.
\<close>

definition reported :: "nat \<Rightarrow> (nat \<times> bool) list \<Rightarrow> view \<Rightarrow> (nat \<times> bool) list" where
  "reported i entries v =
     filter (\<lambda>e. fst e \<in> set (targets (observers v ! i)) \<and> fst e < length (els v)) entries"

definition deliver :: "nat \<Rightarrow> (nat \<times> bool) list \<Rightarrow> view \<Rightarrow> view" where
  "deliver i entries v =
     (if i \<ge> length (observers v) then v else callback i (reported i entries v) v)"

text \<open>The page after a sequence of deliveries, and the pages it went through.\<close>

fun deliveries :: "(nat \<times> (nat \<times> bool) list) list \<Rightarrow> view \<Rightarrow> view list" where
  "deliveries [] v = [v]"
| "deliveries (d # ds) v = v # deliveries ds (deliver (fst d) (snd d) v)"

text \<open>
  The revealed state that an observer with action \<open>a\<close> gives the target \<open>t\<close> (for the
  staggered controllers the inline opacity; the transform of a service card is rewritten
  by its tilt handler as well), and the number of steps of a run at which \<open>t\<close> passes
  from pending to revealed.
\<close>

definition revealed :: "action \<Rightarrow> nat \<Rightarrow> view \<Rightarrow> bool" where
  "revealed a t v =
     (case a of
        MarkVisible \<Rightarrow> is_visible (els v ! t)
      | StyleReveal \<Rightarrow> style_opacity (els v ! t) = ascii ''1''
      | MarkConnector \<Rightarrow>
          (case closest_step (els v ! t) of
             None \<Rightarrow> False
           | Some p \<Rightarrow> is_connector_visible (els v ! p))
      | MarkList l \<Rightarrow> is_visible (els v ! l))"

fun reveals :: "action \<Rightarrow> nat \<Rightarrow> view list \<Rightarrow> nat" where
  "reveals a t (v # w # vs) =
     (if \<not> revealed a t v \<and> revealed a t w then 1 else 0) + reveals a t (w # vs)"
| "reveals a t vs = 0"

text \<open>Every target of the entries has a process step of the document around it.\<close>

definition steps_around :: "(nat \<times> bool) list \<Rightarrow> view \<Rightarrow> bool" where
  "steps_around entries v =
     list_all (\<lambda>e. case closest_step (els v ! fst e) of
                       None \<Rightarrow> False
                     | Some p \<Rightarrow> p < length (els v)) entries"

text \<open>
  The revealed visual state, as the claim about the fallbacks needs it: for the observers
  that add a class, the class is there; for the staggered controllers, the element is not
  left at the hidden opacity that the controller itself sets. \<open>managed v\<close> lists every
  element that some reveal controller of the script looks for, with the action of that
  controller.
\<close>

definition shown :: "action \<Rightarrow> nat \<Rightarrow> view \<Rightarrow> bool" where
  "shown a t v =
     (case a of
        StyleReveal \<Rightarrow> style_opacity (els v ! t) \<noteq> ascii ''0''
      | _ \<Rightarrow> revealed a t v)"

definition managed :: "view \<Rightarrow> (action \<times> nat) list" where
  "managed v =
     map (Pair MarkVisible) (qsa FadeUp v @ qsa WhyCard v)
     @ map (Pair StyleReveal) (qsa ProcessStep v @ qsa ServiceCard v @ qsa TestimonialCard v)
     @ map (Pair MarkVisible) (qsa SectionHeader v @ qsa TestimonialCard v)
     @ (if wide v then map (Pair MarkConnector) (qsa Connector v) else [])
     @ (case qsa AreaList v of [] \<Rightarrow> [] | l # _ \<Rightarrow> [(MarkList l, l)])"

definition all_shown :: "view \<Rightarrow> bool" where
  "all_shown v = list_all (\<lambda>p. shown (fst p) (snd p) v) (managed v)"

text \<open>Documents to evaluate the reveal controllers on.\<close>

definition example_elem :: "sel list \<Rightarrow> elem" where
  "example_elem cs =
     \<lparr>matches = cs, is_visible = False, is_connector_visible = False, style_opacity = [],
      style_transform = [], style_transition = None, closest_step = None\<rparr>"

definition example_view :: "elem list \<Rightarrow> bool \<Rightarrow> bool \<Rightarrow> view" where
  "example_view es io rm =
     \<lparr>els = es, observers = [], has_IO = io, reduced_motion = rm, wide = True,
      sticky_hero = False, thrown = False\<rparr>"

section \<open>The counter animation\<close>

text \<open>
  The numbers of the host language are IEEE 754 doubles. The model takes a finite double
  for the real number that it denotes: a number with at most 53 significant bits and an
  exponent of at least \<open>-1074\<close>. Every arithmetic operation of the code is the exact
  operation followed by \<open>fl\<close>, the rounding to the nearest double with ties to the even
  significand. The sign of a zero is not kept (\<open>-0\<close> prints as \<open>0\<close> and equals \<open>0\<close>); infinities
  and \<open>NaN\<close> are not modelled, so \<open>fl\<close> has no largest exponent: with a target of magnitude
  at most \<open>2 ^ 53\<close> and time stamps that do not run backwards, which is what the theorems
  below assume, no operation of \<open>animateCounter\<close> reaches them.
\<close>

definition representable :: "real \<Rightarrow> bool" where
  "representable x \<longleftrightarrow>
     (\<exists>m k :: int. \<bar>m\<bar> < 2 ^ 53 \<and> - 1074 \<le> k \<and> x = real_of_int m * 2 powr real_of_int k)"

definition rne :: "real \<Rightarrow> int" where
  "rne y =
     (let n = \<lfloor>y\<rfloor>; r = y - real_of_int n
      in if r < 1 / 2 then n else if 1 / 2 < r then n + 1 else if even n then n else n + 1)"

definition fl :: "real \<Rightarrow> real" where
  "fl x =
     (if x = 0 then 0
      else let e = max \<lfloor>log 2 \<bar>x\<bar>\<rfloor> (- 1022); u = 2 powr real_of_int (e - 52)
           in real_of_int (rne (x / u)) * u)"

text \<open>
  \<open>Math.pow(2, x)\<close> is 1 when the exponent is a zero. Otherwise the language leaves the
  result to the engine (an implementation-approximated value), and the model takes it as
  a parameter, \<open>approx\<close>. \<open>rounded_pow2\<close> is the best that an engine can return: the double
  nearest to the exact power.
\<close>

definition math_pow2 :: "(real \<Rightarrow> real) \<Rightarrow> real \<Rightarrow> real" where
  "math_pow2 approx x = (if x = 0 then 1 else approx x)"

definition rounded_pow2 :: "real \<Rightarrow> real" where
  "rounded_pow2 x = fl (2 powr x)"

definition easeOutExpo :: "(real \<Rightarrow> real) \<Rightarrow> real \<Rightarrow> real" where
  "easeOutExpo approx t = (if t = 1 then 1 else fl (1 - math_pow2 approx (fl (- 10 * t))))"

text \<open>\<open>Math.round\<close>: the nearest integer, halves upwards; the result is exact.\<close>

definition math_round :: "real \<Rightarrow> real" where
  "math_round x = real_of_int \<lfloor>x + 1 / 2\<rfloor>"

text \<open>
  The text of a number in the concatenation \<open>current + suffix\<close>. An integer of magnitude at
  most \<open>2 ^ 53\<close> prints as its decimal digits; the texts of the other numbers (fractions,
  shortest round-trip digits, exponent notation from \<open>1e21\<close> on) are outside the model, and
  the result is \<open>None\<close> there.
\<close>

fun digits :: "nat \<Rightarrow> jsstring" where
  "digits n = (if n < 10 then [48 + n] else digits (n div 10) @ [48 + n mod 10])"

declare digits.simps [simp del]

definition show_int :: "int \<Rightarrow> jsstring" where
  "show_int i = (if i < 0 then 45 # digits (nat (- i)) else digits (nat i))"

definition number_to_string :: "real \<Rightarrow> jsstring option" where
  "number_to_string x =
     (if x = real_of_int \<lfloor>x\<rfloor> \<and> \<bar>x\<bar> \<le> 2 ^ 53 then Some (show_int \<lfloor>x\<rfloor>) else None)"

definition concat_suffix :: "real \<Rightarrow> jsstring \<Rightarrow> jsstring option" where
  "concat_suffix x suffix = map_option (\<lambda>d. d @ suffix) (number_to_string x)"

text \<open>
  \<open>parseInt(el.dataset.target, 10)\<close> on the decimal text of the integer \<open>T\<close>: the double
  nearest to \<open>T\<close>.
\<close>

definition parse_target :: "int \<Rightarrow> real" where
  "parse_target T = fl (real_of_int T)"

text \<open>
  The value \<open>current\<close> that the frame callback \<open>step(now)\<close> computes, with \<open>startVal = 0\<close>, and
  the frame itself: the text that the element shows when the callback returns, and
  whether the callback has requested another frame.
\<close>

definition progress :: "real \<Rightarrow> real \<Rightarrow> real \<Rightarrow> real" where
  "progress duration start tnow = min (fl (fl (tnow - start) / duration)) 1"

definition current :: "(real \<Rightarrow> real) \<Rightarrow> real \<Rightarrow> real \<Rightarrow> real \<Rightarrow> real \<Rightarrow> real" where
  "current approx target duration start tnow =
     math_round
       (fl (0 + fl (fl (target - 0) * easeOutExpo approx (progress duration start tnow))))"

definition step ::
  "(real \<Rightarrow> real) \<Rightarrow> real \<Rightarrow> jsstring \<Rightarrow> real \<Rightarrow> real \<Rightarrow> real \<Rightarrow> jsstring option \<times> bool" where
  "step approx target suffix duration start tnow =
     (if progress duration start tnow < 1
      then (concat_suffix (current approx target duration start tnow) suffix, True)
      else (concat_suffix target suffix, False))"

text \<open>
  The frames of one animation, for the time stamps that the browser passes to the
  successive frame callbacks; the duration is the default of \<open>animateCounter\<close>.
\<close>

fun frames ::
  "(real \<Rightarrow> real) \<Rightarrow> real \<Rightarrow> jsstring \<Rightarrow> real \<Rightarrow> real list \<Rightarrow> jsstring option list" where
  "frames approx target suffix start [] = []"
| "frames approx target suffix start (tnow # later) =
     fst (step approx target suffix 1600 start tnow)
     # (if snd (step approx target suffix 1600 start tnow)
        then frames approx target suffix start later else [])"
section \<open>Facts about trimming\<close>

lemma dropWhile_all_iff: "(\<forall>x\<in>set (dropWhile P s). P x) \<longleftrightarrow> dropWhile P s = []"
proof
  assume a: "\<forall>x\<in>set (dropWhile P s). P x"
  show "dropWhile P s = []"
  proof (rule ccontr)
    assume ne: "dropWhile P s \<noteq> []"
    then have "\<not> P (hd (dropWhile P s))" by (rule hd_dropWhile)
    moreover have "hd (dropWhile P s) \<in> set (dropWhile P s)" using ne by simp
    ultimately show False using a by blast
  qed
next
  assume "dropWhile P s = []"
  then show "\<forall>x\<in>set (dropWhile P s). P x" by (metis empty_iff empty_set)
qed

lemma dropWhile_hd_id: "xs \<noteq> [] \<Longrightarrow> \<not> P (hd xs) \<Longrightarrow> dropWhile P xs = xs"
  by (cases xs) simp_all

lemma trim_eq_Nil: "trim s = [] \<longleftrightarrow> list_all is_js_space s"
proof -
  have "trim s = [] \<longleftrightarrow> (\<forall>x\<in>set (dropWhile is_js_space s). is_js_space x)"
    by (simp add: trim_def dropWhile_eq_Nil_conv)
  also have "\<dots> \<longleftrightarrow> dropWhile is_js_space s = []"
    by (rule dropWhile_all_iff)
  also have "\<dots> \<longleftrightarrow> list_all is_js_space s"
    by (simp add: dropWhile_eq_Nil_conv list_all_iff)
  finally show ?thesis .
qed

lemma trim_decompose:
  "\<exists>pre post. s = pre @ trim s @ post \<and> list_all is_js_space pre \<and> list_all is_js_space post"
proof -
  let ?a = "takeWhile is_js_space s"
  let ?m = "dropWhile is_js_space s"
  let ?b = "rev (takeWhile is_js_space (rev ?m))"
  have "rev ?m = takeWhile is_js_space (rev ?m) @ dropWhile is_js_space (rev ?m)"
    by simp
  then have "?m = trim s @ ?b"
    unfolding trim_def by (metis rev_append rev_rev_ident)
  then have "s = ?a @ trim s @ ?b"
    by (metis takeWhile_dropWhile_id)
  moreover have "list_all is_js_space ?a"
    by (auto simp: list_all_iff dest: set_takeWhileD)
  moreover have "list_all is_js_space ?b"
    by (auto simp: list_all_iff dest: set_takeWhileD)
  ultimately show ?thesis by blast
qed

lemma trim_ends:
  "trim s \<noteq> [] \<Longrightarrow> \<not> is_js_space (hd (trim s)) \<and> \<not> is_js_space (last (trim s))"
proof -
  assume ne: "trim s \<noteq> []"
  let ?m = "dropWhile is_js_space s"
  let ?r = "dropWhile is_js_space (rev ?m)"
  have r: "?r \<noteq> []" using ne by (simp add: trim_def)
  then have 1: "\<not> is_js_space (hd ?r)" by (rule hd_dropWhile)
  have "last (trim s) = hd ?r" using r by (simp add: trim_def last_rev)
  with 1 have a: "\<not> is_js_space (last (trim s))" by simp
  have m: "?m \<noteq> []" using r by (cases "dropWhile is_js_space s") simp_all
  then have 2: "\<not> is_js_space (hd ?m)" by (rule hd_dropWhile)
  have "rev ?m = takeWhile is_js_space (rev ?m) @ ?r" by simp
  then have "?m = trim s @ rev (takeWhile is_js_space (rev ?m))"
    unfolding trim_def by (metis rev_append rev_rev_ident)
  then have "hd ?m = hd (trim s)" using ne by (metis hd_append2)
  with 2 a show ?thesis by simp
qed

lemma trim_idem: "trim (trim s) = trim s"
proof (cases "trim s = []")
  case True
  have "trim [] = []" by (simp add: trim_def)
  with True show ?thesis by simp
next
  case False
  from trim_ends[OF False] have h: "\<not> is_js_space (hd (trim s))" and l: "\<not> is_js_space (last (trim s))"
    by simp_all
  have 1: "dropWhile is_js_space (trim s) = trim s"
    using False h by (rule dropWhile_hd_id)
  have r: "rev (trim s) \<noteq> []" using False by simp
  have "hd (rev (trim s)) = last (trim s)" using False by (simp add: hd_rev)
  with l have "\<not> is_js_space (hd (rev (trim s)))" by simp
  with r have 2: "dropWhile is_js_space (rev (trim s)) = rev (trim s)"
    by (rule dropWhile_hd_id)
  show ?thesis
    by (subst (1) trim_def) (simp only: 1 2 rev_rev_ident)
qed

section \<open>Facts about the matcher\<close>

lemma rmatch_Rep_Class:
  "(b', t) \<in> set (rmatch (Rep lo hi (Class p)) (b, s)) \<longleftrightarrow>
     (\<exists>n. lo \<le> n \<and> n \<le> hi \<and> n \<le> length s \<and> list_all p (take n s) \<and>
          t = drop n s \<and> b' = (b \<and> n = 0))"
proof (induction hi arbitrary: lo b s)
  case 0
  then show ?case by auto
next
  case (Suc h)
  show ?case
  proof (cases s)
    case Nil
    then show ?thesis by auto
  next
    case (Cons c cs)
    show ?thesis
    proof (cases "p c")
      case False
      have "(\<exists>n. lo \<le> n \<and> n \<le> Suc h \<and> n \<le> length s \<and> list_all p (take n s) \<and>
          t = drop n s \<and> b' = (b \<and> n = 0)) \<longleftrightarrow> (lo = 0 \<and> t = s \<and> b' = b)"
        (is "?L \<longleftrightarrow> ?R")
      proof
        assume ?L
        then obtain n where n: "lo \<le> n" "list_all p (take n s)" "t = drop n s" "b' = (b \<and> n = 0)"
          by blast
        have "n = 0" using n(2) False Cons by (cases n) auto
        with n show ?R by simp
      next
        assume ?R
        then show ?L by (intro exI[of _ 0]) simp
      qed
      with False Cons show ?thesis by auto
    next
      case True
      have "(\<exists>n. lo \<le> n \<and> n \<le> Suc h \<and> n \<le> length s \<and> list_all p (take n s) \<and>
          t = drop n s \<and> b' = (b \<and> n = 0)) \<longleftrightarrow>
        (lo = 0 \<and> t = s \<and> b' = b) \<or>
        (\<exists>m. lo - 1 \<le> m \<and> m \<le> h \<and> m \<le> length cs \<and> list_all p (take m cs) \<and>
          t = drop m cs \<and> b' = False)"
        (is "?L \<longleftrightarrow> ?R0 \<or> ?R1")
      proof
        assume ?L
        then obtain n where n: "lo \<le> n" "n \<le> Suc h" "n \<le> length s" "list_all p (take n s)"
          "t = drop n s" "b' = (b \<and> n = 0)"
          by blast
        show "?R0 \<or> ?R1"
        proof (cases n)
          case 0
          with n show ?thesis by simp
        next
          case (Suc m)
          with n Cons have "lo - 1 \<le> m \<and> m \<le> h \<and> m \<le> length cs \<and> list_all p (take m cs) \<and>
            t = drop m cs \<and> b' = False" by auto
          then show ?thesis by blast
        qed
      next
        assume "?R0 \<or> ?R1"
        then show ?L
        proof
          assume ?R0
          then show ?L by (intro exI[of _ 0]) simp
        next
          assume ?R1
          then obtain m where m: "lo - 1 \<le> m" "m \<le> h" "m \<le> length cs" "list_all p (take m cs)"
            "t = drop m cs" "b' = False" by blast
          show ?L using m Cons True by (intro exI[of _ "Suc m"]) auto
        qed
      qed
      moreover have "(b', t) \<in> set (rmatch (Rep lo (Suc h) (Class p)) (b, s)) \<longleftrightarrow>
         (b', t) \<in> set (rmatch (Rep (lo - 1) h (Class p)) (False, cs)) \<or> (lo = 0 \<and> t = s \<and> b' = b)"
        using Cons True by auto
      ultimately show ?thesis using Suc.IH[where lo="lo - 1" and b=False and s=cs] by auto
    qed
  qed
qed

lemma rmatch_Seq_Eol:
  "rmatch (Seq r Eol) st \<noteq> [] \<longleftrightarrow> (\<exists>b'. (b', []) \<in> set (rmatch r st))"
proof -
  have e: "\<And>x. rmatch Eol x \<noteq> [] \<longleftrightarrow> snd x = []" by simp
  have "rmatch (Seq r Eol) st \<noteq> [] \<longleftrightarrow> (\<exists>x\<in>set (rmatch r st). rmatch Eol x \<noteq> [])"
    by (simp only: rmatch.simps(7) concat_eq_Nil_conv set_map) blast
  also have "\<dots> \<longleftrightarrow> (\<exists>x\<in>set (rmatch r st). snd x = [])"
    by (simp only: e)
  also have "\<dots> \<longleftrightarrow> (\<exists>b'. (b', []) \<in> set (rmatch r st))"
    by force
  finally show ?thesis .
qed

lemma rmatch_Rep_Class_Eol:
  "rmatch (Seq (Rep lo hi (Class p)) Eol) (b, s) \<noteq> [] \<longleftrightarrow>
     lo \<le> length s \<and> length s \<le> hi \<and> list_all p s"
  unfolding rmatch_Seq_Eol rmatch_Rep_Class by auto

lemma regex_test_Bol:
  "regex_test (Seq Bol r) s \<longleftrightarrow> rmatch r (True, s) \<noteq> []"
proof
  assume "regex_test (Seq Bol r) s"
  then obtain i where i: "rmatch (Seq Bol r) (i = 0, drop i s) \<noteq> []"
    unfolding regex_test_def list_ex_iff by blast
  have "i = 0" using i by (cases "i = 0") simp_all
  with i show "rmatch r (True, s) \<noteq> []" by simp
next
  assume "rmatch r (True, s) \<noteq> []"
  then have "rmatch (Seq Bol r) (0 = (0::nat), drop 0 s) \<noteq> []" by simp
  moreover have "(0::nat) \<in> set [0..<Suc (length s)]" by simp
  ultimately show "regex_test (Seq Bol r) s"
    unfolding regex_test_def list_ex_iff by blast
qed

lemma rmatch_Seq_Opt_Class:
  "rmatch (Seq (Opt (Class q)) r) (b, s) \<noteq> [] \<longleftrightarrow>
     (case s of [] \<Rightarrow> False | c # cs \<Rightarrow> q c \<and> rmatch r (False, cs) \<noteq> []) \<or> rmatch r (b, s) \<noteq> []"
  by (auto split: list.splits)

lemma not_phone_class_plus: "\<not> phone_class 43"
  by (simp add: phone_class_def is_digit_def is_js_space_def)

lemma phone_pattern_iff: "regex_test phone_pattern s \<longleftrightarrow> phone_ok s"
  unfolding phone_pattern_def regex_test_Bol rmatch_Seq_Opt_Class rmatch_Rep_Class_Eol
    phone_ok_def phone_body_def
  using not_phone_class_plus by (auto split: list.splits)

lemma digit_phone_class: "is_digit c \<Longrightarrow> phone_class c"
  by (simp add: phone_class_def)

lemma digit_not_plus: "is_digit c \<Longrightarrow> c \<noteq> 43"
  by (auto simp: is_digit_def)

section \<open>Facts about the rule table\<close>

lemma ids_distinct:
  "formName \<noteq> formPhone" "formName \<noteq> formMessage" "formPhone \<noteq> formMessage"
  "formPhone \<noteq> formName" "formMessage \<noteq> formName" "formMessage \<noteq> formPhone"
  by (simp_all add: formName_def formPhone_def formMessage_def ascii_def)

lemma rule_keys_eq: "rule_keys = [formName, formPhone, formMessage]"
  by (simp add: rule_keys_def rules_def)

lemma rules_get_own: "map_of rules fid = Some r \<Longrightarrow> rules_get fid = Some r"
  by (simp add: rules_get_def)

lemma map_of_rules_None: "map_of rules fid = None \<longleftrightarrow> fid \<notin> set rule_keys"
  by (simp add: rule_keys_def map_of_eq_None_iff)

lemma validateField_no_constraints:
  "rules_get fid = Some no_constraints \<Longrightarrow> validateField fid raw = Some []"
  by (simp add: validateField_def no_constraints_def)

lemma rules_cases:
  assumes "map_of rules fid = Some r"
  obtains
    (name) "fid = formName"
      "r = \<lparr>required = True, minLength = Some 2, pattern = None,
       messages = [Required \<mapsto> ascii ''Ime i prezime su obavezni.'',
                   MinLength \<mapsto> ascii ''Unesite puno ime (minimum 2 karaktera).'']\<rparr>"
  | (phone) "fid = formPhone"
     "r = \<lparr>required = True, minLength = None, pattern = Some phone_pattern,
       messages = [Required \<mapsto> ascii ''Broj telefona je obavezan.'',
                   Pattern \<mapsto> ascii ''Unesite ispravan broj telefona.'']\<rparr>"
  | (message) "fid = formMessage"
     "r = \<lparr>required = True, minLength = Some 10, pattern = None,
       messages = [Required \<mapsto> ascii ''Opis problema je obavezan.'',
                   MinLength \<mapsto> ascii ''Opi'' @ [353]
                     @ ascii ''ite problem detaljnije (min. 10 karaktera).'']\<rparr>"
  using assms by (auto simp: rules_def split: if_splits)

section \<open>The field validator: claims\<close>

lemma validateField_table:
  assumes "map_of rules fid = Some r"
  shows "validateField fid raw =
    (if required r \<and> trim raw = [] then messages r Required
     else if trim raw \<noteq> [] \<and>
             (case minLength r of None \<Rightarrow> False | Some n \<Rightarrow> n \<noteq> 0 \<and> length (trim raw) < n)
          then messages r MinLength
     else if trim raw \<noteq> [] \<and>
             (case pattern r of None \<Rightarrow> False | Some p \<Rightarrow> \<not> regex_test p (trim raw))
          then messages r Pattern
     else Some [])"
  using rules_get_own[OF assms] by (simp add: validateField_def Let_def)

lemma table_messages:
  assumes "map_of rules fid = Some r"
  shows "required r"
    and "\<exists>m. messages r Required = Some m \<and> m \<noteq> []"
    and "messages r Required \<noteq> messages r MinLength"
    and "messages r Required \<noteq> messages r Pattern"
    and "messages r MinLength \<noteq> messages r Pattern"
    and "minLength r \<noteq> None \<Longrightarrow> \<exists>m. messages r MinLength = Some m \<and> m \<noteq> []"
    and "pattern r \<noteq> None \<Longrightarrow> \<exists>m. messages r Pattern = Some m \<and> m \<noteq> []"
    and "minLength r \<noteq> Some 0"
  using assms by (cases rule: rules_cases; simp add: ascii_def)+

lemma validateField_Some:
  assumes "map_of rules fid = Some r"
  shows "\<exists>m. validateField fid raw = Some m"
  using table_messages(2,6,7)[OF assms]
  by (auto simp: validateField_table[OF assms] split: option.splits)

text \<open>
  Claim C1. For every tracked field the validator works on the trimmed value and applies
  required, then minLength, then pattern, returning the message of the first rule that
  fails: a value \<open>ws\<close> of white space only gives the required message and neither of the
  other two; a value \<open>sh\<close> whose trimmed text is non-empty and shorter than the minimum
  gives the length message; the result is always one string, empty exactly when no rule
  fails.
\<close>

theorem validateField_priority:
  assumes "map_of rules fid = Some r"
  shows
    "validateField fid raw = validateField fid (trim raw) \<and>
     validateField fid raw =
       (if required r \<and> trim raw = [] then messages r Required
        else if trim raw \<noteq> [] \<and>
                (case minLength r of None \<Rightarrow> False | Some n \<Rightarrow> n \<noteq> 0 \<and> length (trim raw) < n)
             then messages r MinLength
        else if trim raw \<noteq> [] \<and>
                (case pattern r of None \<Rightarrow> False | Some p \<Rightarrow> \<not> regex_test p (trim raw))
             then messages r Pattern
        else Some []) \<and>
     required r \<and>
     (list_all is_js_space ws \<longrightarrow>
        validateField fid ws = messages r Required \<and>
        validateField fid ws \<noteq> messages r MinLength \<and>
        validateField fid ws \<noteq> messages r Pattern \<and> truthy (validateField fid ws)) \<and>
     (trim sh \<noteq> [] \<and> minLength r = Some n \<and> length (trim sh) < n \<longrightarrow>
        validateField fid sh = messages r MinLength \<and>
        validateField fid sh \<noteq> messages r Required \<and> truthy (validateField fid sh)) \<and>
     (\<exists>m. validateField fid raw = Some m) \<and>
     (validateField fid raw = Some [] \<longleftrightarrow>
        trim raw \<noteq> [] \<and>
        (case minLength r of None \<Rightarrow> True | Some n \<Rightarrow> n \<le> length (trim raw)) \<and>
        (case pattern r of None \<Rightarrow> True | Some p \<Rightarrow> regex_test p (trim raw)))"
proof -
  note tab = validateField_table[OF assms]
  note msg = table_messages[OF assms]
  have c1: "validateField fid raw = validateField fid (trim raw)"
    by (simp only: tab trim_idem)
  have c4: "list_all is_js_space ws \<longrightarrow>
        validateField fid ws = messages r Required \<and>
        validateField fid ws \<noteq> messages r MinLength \<and>
        validateField fid ws \<noteq> messages r Pattern \<and> truthy (validateField fid ws)"
    using msg(1-4) by (auto simp: tab trim_eq_Nil truthy_def)
  have c5: "trim sh \<noteq> [] \<and> minLength r = Some n \<and> length (trim sh) < n \<longrightarrow>
        validateField fid sh = messages r MinLength \<and>
        validateField fid sh \<noteq> messages r Required \<and> truthy (validateField fid sh)"
    using msg(3,6) by (auto simp: tab truthy_def)
  have c6: "\<exists>m. validateField fid raw = Some m"
    by (rule validateField_Some[OF assms])
  have c7: "validateField fid raw = Some [] \<longleftrightarrow>
        trim raw \<noteq> [] \<and>
        (case minLength r of None \<Rightarrow> True | Some n \<Rightarrow> n \<le> length (trim raw)) \<and>
        (case pattern r of None \<Rightarrow> True | Some p \<Rightarrow> regex_test p (trim raw))"
    using msg(1,2,6,7,8) by (auto simp: tab split: option.splits)
  from c1 tab msg(1) c4 c5 c6 c7 show ?thesis by blast
qed

theorem validateField_priority_witness:
  "map_of rules formName = Some \<lparr>required = True, minLength = Some 2, pattern = None,
       messages = [Required \<mapsto> ascii ''Ime i prezime su obavezni.'',
                   MinLength \<mapsto> ascii ''Unesite puno ime (minimum 2 karaktera).'']\<rparr> \<and>
   list_all is_js_space [32, 9, 160] \<and>
   trim [32, 65, 32] \<noteq> [] \<and> length (trim [32, 65, 32]) < 2 \<and>
   validateField formName [32, 9, 160] = Some (ascii ''Ime i prezime su obavezni.'') \<and>
   validateField formName [32, 65, 32] = Some (ascii ''Unesite puno ime (minimum 2 karaktera).'') \<and>
   validateField formName (ascii '' Ana '') = Some []"
proof -
  let ?r = "\<lparr>required = True, minLength = Some 2, pattern = None,
       messages = [Required \<mapsto> ascii ''Ime i prezime su obavezni.'',
                   MinLength \<mapsto> ascii ''Unesite puno ime (minimum 2 karaktera).'']\<rparr>"
  have h: "map_of rules formName = Some ?r"
    by (simp add: rules_def)
  have ws: "list_all is_js_space [32, 9, 160]"
    by (simp add: is_js_space_def)
  have t: "trim [32, 65, 32] = [65]"
    by (simp add: trim_def is_js_space_def)
  have t2: "trim (ascii '' Ana '') = ascii ''Ana''"
    by (simp add: trim_def is_js_space_def ascii_def)
  from validateField_priority[OF h, of "ascii '' Ana ''" "[32, 9, 160]" "[32, 65, 32]" 2,
      THEN conjunct2] h ws t t2
  show ?thesis by (simp add: ascii_def)
qed

text \<open>
  Claim C5. A field identifier without an entry in the rule table is valid whatever its
  value: the result is the empty string.
\<close>

theorem validateField_unknown:
  assumes "fid \<notin> set rule_keys"
  shows "validateField fid raw = Some []"
proof -
  from assms have "map_of rules fid = None" by (simp add: map_of_rules_None)
  then have "rules_get fid = None \<or> rules_get fid = Some no_constraints"
    by (simp add: rules_get_def)
  then show ?thesis
    by (auto simp: validateField_no_constraints) (simp add: validateField_def)
qed

theorem validateField_unknown_witness:
  "ascii ''formEmail'' \<notin> set rule_keys \<and> ascii ''toString'' \<notin> set rule_keys \<and>
   validateField (ascii ''formEmail'') [] = Some [] \<and>
   validateField (ascii ''toString'') (ascii ''x'') = Some []"
proof -
  have a: "ascii ''formEmail'' \<notin> set rule_keys"
    by (simp add: rule_keys_eq formName_def formPhone_def formMessage_def ascii_def)
  have b: "ascii ''toString'' \<notin> set rule_keys"
    by (simp add: rule_keys_eq formName_def formPhone_def formMessage_def ascii_def)
  from validateField_unknown[OF a, of "[]"] validateField_unknown[OF b, of "ascii ''x''"] a b
  show ?thesis by simp
qed

text \<open>
  Claim C4, as stated: the phone pattern accepts exactly an optional leading \<open>+\<close> followed
  by digits, spaces, hyphens, parentheses and periods, of total length 7 to 20. It does
  not: a \<open>+\<close> with twenty digits is 21 characters long and is accepted, and a \<open>+\<close> with six
  digits is 7 characters long and is rejected.
\<close>

theorem phone_pattern_total_length_counterexample:
  "regex_test phone_pattern (ascii ''+12345678901234567890'') \<and>
   \<not> spec_phone_accepts (ascii ''+12345678901234567890'') \<and>
   \<not> regex_test phone_pattern (ascii ''+123456'') \<and>
   spec_phone_accepts (ascii ''+123456'')"
  by (simp add: phone_pattern_iff phone_ok_def phone_body_def phone_class_def is_digit_def
      spec_phone_accepts_def spec_phone_char_def ascii_def)

text \<open>
  Claim C4, amended. The phone pattern accepts exactly the strings that are an optional
  leading \<open>+\<close> followed by 7 to 20 code units, each a digit, a white-space character, a
  hyphen, a parenthesis or a period (the \<open>+\<close> is not counted). It accepts
  \<open>+381 64 123 4567\<close> and rejects \<open>abc\<close> and every string of 21 or more digits.
\<close>

theorem phone_pattern_accepts:
  "(regex_test phone_pattern s \<longleftrightarrow>
      7 \<le> length (phone_body s) \<and> length (phone_body s) \<le> 20 \<and>
      list_all phone_class (phone_body s)) \<and>
   regex_test phone_pattern (ascii ''+381 64 123 4567'') \<and>
   \<not> regex_test phone_pattern (ascii ''abc'') \<and>
   (list_all is_digit d \<and> 21 \<le> length d \<longrightarrow> \<not> regex_test phone_pattern d)"
proof -
  have a: "regex_test phone_pattern (ascii ''+381 64 123 4567'')"
    by (simp add: phone_pattern_iff phone_ok_def phone_body_def phone_class_def is_digit_def
        is_js_space_def ascii_def)
  have b: "\<not> regex_test phone_pattern (ascii ''abc'')"
    by (simp add: phone_pattern_iff phone_ok_def phone_body_def ascii_def)
  have c: "list_all is_digit d \<and> 21 \<le> length d \<longrightarrow> \<not> regex_test phone_pattern d"
  proof
    assume d: "list_all is_digit d \<and> 21 \<le> length d"
    then have "phone_body d = d"
      by (cases d) (auto simp: phone_body_def dest: digit_not_plus)
    with d show "\<not> regex_test phone_pattern d"
      by (simp add: phone_pattern_iff phone_ok_def)
  qed
  from a b c show ?thesis by (simp add: phone_pattern_iff phone_ok_def)
qed

theorem phone_pattern_accepts_witness:
  "list_all is_digit (ascii ''123456789012345678901'') \<and>
   21 \<le> length (ascii ''123456789012345678901'') \<and>
   \<not> regex_test phone_pattern (ascii ''123456789012345678901'') \<and>
   regex_test phone_pattern (ascii ''12345678901234567890'')"
proof -
  have h: "list_all is_digit (ascii ''123456789012345678901'') \<and>
   21 \<le> length (ascii ''123456789012345678901'')"
    by (simp add: is_digit_def ascii_def)
  have "regex_test phone_pattern (ascii ''12345678901234567890'')"
    using phone_pattern_accepts[of "ascii ''12345678901234567890''" "[]"]
    by (simp add: phone_body_def phone_class_def is_digit_def ascii_def)
  with h phone_pattern_accepts[of "[]" "ascii ''123456789012345678901''"]
  show ?thesis by blast
qed

section \<open>Facts about error rendering\<close>

lemma setFieldError_value [simp]:
  "el_value (setFieldError f m) = el_value f" "el_default (setFieldError f m) = el_default f"
  by (simp_all add: setFieldError_def)

lemma setFieldError_invalid [simp]: "is_invalid (setFieldError f m) = truthy m"
  by (simp add: setFieldError_def)

lemma setFieldError_aria:
  "aria_invalid (setFieldError f m) = Some (if truthy m then ascii ''true'' else ascii ''false'')"
  by (simp add: setFieldError_def)

lemma setFieldError_text:
  "error_text (setFieldError f m) =
     map_option (\<lambda>_. if truthy m then the m else []) (error_text f)"
  by (simp add: setFieldError_def)

lemma setFieldError_idem: "setFieldError (setFieldError f m) m = setFieldError f m"
  by (simp add: setFieldError_def option.map_comp comp_def)

lemma setFieldError_clear_marked:
  "setFieldError (setFieldError f m) (Some []) = setFieldError f (Some [])"
  by (simp add: setFieldError_def truthy_def option.map_comp comp_def)

lemma marked_value [simp]: "el_value (marked k f) = el_value f" "el_default (marked k f) = el_default f"
  by (simp_all add: marked_def)

lemma marked_idem: "marked k (marked k f) = marked k f"
  by (simp add: marked_def setFieldError_idem)

lemma truthy_simps [simp]: "\<not> truthy None" "\<not> truthy (Some [])" "truthy (Some (x # xs))"
  by (simp_all add: truthy_def)

lemma tracked_result:
  assumes "k \<in> set rule_keys"
  shows "\<exists>m. validateField k v = Some m"
proof -
  from assms obtain r where "map_of rules k = Some r"
    by (metis map_of_rules_None not_Some_eq)
  then show ?thesis by (rule validateField_Some)
qed

text \<open>
  Claim C6. Blur validates a tracked field and renders the outcome. An input event on a
  field that carries the invalid marker validates the new value at once, and removes the
  marker and the error text when that value is valid; an input event on a field without
  the marker only changes the value: the field is not validated, so it stays unmarked even
  when the new value is invalid, until the next blur.
\<close>

theorem live_validation:
  assumes "k \<in> set rule_keys" and "form_fields s k = Some f"
  shows
    "form_fields (blur_event k s) k = Some (setFieldError f (validateField k (el_value f))) \<and>
     (is_invalid f \<longrightarrow>
        form_fields (input_event k v s) k
          = Some (setFieldError (f\<lparr>el_value := v\<rparr>) (validateField k v))) \<and>
     (is_invalid f \<and> validateField k v = Some [] \<longrightarrow>
        (\<exists>f'. form_fields (input_event k v s) k = Some f' \<and> el_value f' = v \<and>
              \<not> is_invalid f' \<and> aria_invalid f' = Some (ascii ''false'') \<and>
              error_text f' = map_option (\<lambda>_. []) (error_text f))) \<and>
     (\<not> is_invalid f \<longrightarrow>
        form_fields (input_event k v s) k = Some (f\<lparr>el_value := v\<rparr>) \<and>
        form_fields (blur_event k (input_event k v s)) k
          = Some (setFieldError (f\<lparr>el_value := v\<rparr>) (validateField k v))) \<and>
     (\<forall>j. j \<noteq> k \<longrightarrow> form_fields (input_event k v s) j = form_fields s j \<and>
                     form_fields (blur_event k s) j = form_fields s j)"
  using assms
  by (auto simp: blur_event_def blur_listener_def input_event_def input_listener_def Let_def
      setFieldError_aria setFieldError_text)

lemma validateField_formName:
  "validateField formName v =
     (if trim v = [] then Some (ascii ''Ime i prezime su obavezni.'')
      else if length (trim v) < 2 then Some (ascii ''Unesite puno ime (minimum 2 karaktera).'')
      else Some [])"
proof -
  have "map_of rules formName = Some \<lparr>required = True, minLength = Some 2, pattern = None,
       messages = [Required \<mapsto> ascii ''Ime i prezime su obavezni.'',
                   MinLength \<mapsto> ascii ''Unesite puno ime (minimum 2 karaktera).'']\<rparr>"
    by (simp add: rules_def)
  from validateField_table[OF this] show ?thesis by simp
qed

lemma validateField_formPhone:
  "validateField formPhone v =
     (if trim v = [] then Some (ascii ''Broj telefona je obavezan.'')
      else if \<not> phone_ok (trim v) then Some (ascii ''Unesite ispravan broj telefona.'')
      else Some [])"
proof -
  have "map_of rules formPhone = Some \<lparr>required = True, minLength = None, pattern = Some phone_pattern,
       messages = [Required \<mapsto> ascii ''Broj telefona je obavezan.'',
                   Pattern \<mapsto> ascii ''Unesite ispravan broj telefona.'']\<rparr>"
    by (simp add: rules_def ids_distinct)
  from validateField_table[OF this] show ?thesis by (simp add: phone_pattern_iff)
qed

lemma validateField_formMessage:
  "validateField formMessage v =
     (if trim v = [] then Some (ascii ''Opis problema je obavezan.'')
      else if length (trim v) < 10
        then Some (ascii ''Opi'' @ [353] @ ascii ''ite problem detaljnije (min. 10 karaktera).'')
      else Some [])"
proof -
  have "map_of rules formMessage = Some \<lparr>required = True, minLength = Some 10, pattern = None,
       messages = [Required \<mapsto> ascii ''Opis problema je obavezan.'',
                   MinLength \<mapsto> ascii ''Opi'' @ [353]
                     @ ascii ''ite problem detaljnije (min. 10 karaktera).'']\<rparr>"
    by (simp add: rules_def ids_distinct)
  from validateField_table[OF this] show ?thesis by simp
qed

lemma trim_examples:
  "trim [] = []"
  "trim (ascii ''A'') = ascii ''A''"
  "trim (ascii ''Ana'') = ascii ''Ana''"
  "trim (ascii ''Ana Anic'') = ascii ''Ana Anic''"
  "trim (ascii ''abc'') = ascii ''abc''"
  "trim (ascii ''+381 64 123 4567'') = ascii ''+381 64 123 4567''"
  "trim (ascii ''Curi slavina u kuhinji.'') = ascii ''Curi slavina u kuhinji.''"
  by (simp_all add: trim_def ascii_def is_js_space_def)

lemma phone_ok_examples:
  "phone_ok (ascii ''+381 64 123 4567'')" "\<not> phone_ok (ascii ''abc'')"
  by (simp_all add: phone_ok_def phone_body_def phone_class_def is_digit_def is_js_space_def
      ascii_def)

lemma example_fields [simp]:
  "form_fields (example_page n p m) formName = Some (example_field n)"
  "form_fields (example_page n p m) formPhone = Some (example_field p)"
  "form_fields (example_page n p m) formMessage = Some (example_field m)"
  by (simp_all add: example_page_def ids_distinct)

lemma mem_rule_keys [simp]:
  "formName \<in> set rule_keys" "formPhone \<in> set rule_keys" "formMessage \<in> set rule_keys"
  by (simp_all add: rule_keys_eq)

theorem live_validation_witness:
  "formName \<in> set rule_keys \<and>
   form_fields (example_page [] [] []) formName = Some (example_field []) \<and>
   \<not> is_invalid (example_field []) \<and>
   \<not> is_invalid (the (form_fields (input_event formName (ascii ''A'') (example_page [] [] [])) formName)) \<and>
   is_invalid (the (form_fields (blur_event formName (example_page [] [] [])) formName)) \<and>
   form_fields (blur_event formName (example_page [] [] [])) formName
     = Some ((example_field [])\<lparr>is_invalid := True, aria_invalid := Some (ascii ''true''),
          error_text := Some (ascii ''Ime i prezime su obavezni.'')\<rparr>) \<and>
   validateField formName (ascii ''Ana'') = Some [] \<and>
   form_fields (input_event formName (ascii ''Ana'') (blur_event formName (example_page [] [] [])))
      formName
     = Some ((example_field (ascii ''Ana''))\<lparr>aria_invalid := Some (ascii ''false'')\<rparr>)"
proof -
  let ?s = "example_page [] [] []"
  let ?f = "(example_field [])\<lparr>is_invalid := True, aria_invalid := Some (ascii ''true''),
          error_text := Some (ascii ''Ime i prezime su obavezni.'')\<rparr>"
  have k: "formName \<in> set rule_keys" by simp
  have f: "form_fields ?s formName = Some (example_field [])" by simp
  have n: "\<not> is_invalid (example_field [])" by (simp add: example_field_def)
  have v: "validateField formName [] = Some (ascii ''Ime i prezime su obavezni.'')"
    by (simp add: validateField_formName trim_examples)
  have t: "truthy (Some (ascii ''Ime i prezime su obavezni.''))" by (simp add: ascii_def)
  have va: "validateField formName (ascii ''Ana'') = Some []"
    by (simp add: validateField_formName trim_examples) (simp add: ascii_def)
  note a = live_validation[OF k f, of "ascii ''A''"]
  have b1: "form_fields (blur_event formName ?s) formName = Some ?f"
    using a v t by (simp add: setFieldError_def example_field_def)
  have i: "is_invalid ?f" by simp
  note b = live_validation[OF k b1, of "ascii ''Ana''"]
  have b2: "form_fields (input_event formName (ascii ''Ana'') (blur_event formName ?s)) formName
     = Some ((example_field (ascii ''Ana''))\<lparr>aria_invalid := Some (ascii ''false'')\<rparr>)"
    using b i va by (simp add: setFieldError_def example_field_def)
  from a n have a2: "\<not> is_invalid (the (form_fields (input_event formName (ascii ''A'') ?s) formName))"
    by simp
  from k f n a2 b1 va b2 show ?thesis by simp
qed

section \<open>Facts about the submit handler\<close>

lemma distinct_rule_keys: "distinct rule_keys"
  by (simp add: rule_keys_eq ids_distinct)

lemma invalid_at_upd_other:
  "j \<noteq> k \<Longrightarrow> invalid_at (s\<lparr>form_fields := (form_fields s)(k \<mapsto> g)\<rparr>) j = invalid_at s j"
  by (simp add: invalid_at_def)

lemma validate_all_closed:
  "distinct ks \<Longrightarrow>
   validate_all ks s ok fi =
     (s\<lparr>form_fields :=
          (\<lambda>k. if k \<in> set ks then map_option (marked k) (form_fields s k) else form_fields s k)\<rparr>,
      ok \<and> (\<forall>k\<in>set ks. \<not> invalid_at s k),
      if fi \<noteq> None then fi else find (invalid_at s) ks)"
proof (induction ks arbitrary: s ok fi)
  case Nil
  then show ?case by simp
next
  case (Cons k ks)
  then have d: "k \<notin> set ks" "distinct ks" by simp_all
  show ?case
  proof (cases "form_fields s k")
    case None
    have "(\<lambda>j. if j \<in> set (k # ks) then map_option (marked j) (form_fields s j) else form_fields s j)
        = (\<lambda>j. if j \<in> set ks then map_option (marked j) (form_fields s j) else form_fields s j)"
      using None by auto
    moreover have "\<not> invalid_at s k" using None by (simp add: invalid_at_def)
    ultimately show ?thesis using None Cons.IH[OF d(2)] by simp
  next
    case (Some f)
    let ?s' = "s\<lparr>form_fields := (form_fields s)(k \<mapsto> marked k f)\<rparr>"
    have F: "(\<lambda>j. if j \<in> set ks then map_option (marked j) (form_fields ?s' j) else form_fields ?s' j)
        = (\<lambda>j. if j \<in> set (k # ks) then map_option (marked j) (form_fields s j) else form_fields s j)"
      using Some d(1) by auto
    have I: "\<And>j. j \<in> set ks \<Longrightarrow> invalid_at ?s' j = invalid_at s j"
      using d(1) by (auto simp: invalid_at_def)
    then have A: "(\<forall>j\<in>set ks. \<not> invalid_at ?s' j) = (\<forall>j\<in>set ks. \<not> invalid_at s j)"
      by simp
    have Fi: "find (invalid_at ?s') ks = find (invalid_at s) ks"
      using I by (induction ks) auto
    have ik: "invalid_at s k = truthy (validateField k (el_value f))"
      using Some by (simp add: invalid_at_def)
    have st: "?s'\<lparr>form_fields :=
          (\<lambda>j. if j \<in> set ks then map_option (marked j) (form_fields ?s' j) else form_fields ?s' j)\<rparr>
        = s\<lparr>form_fields :=
          (\<lambda>j. if j \<in> set (k # ks) then map_option (marked j) (form_fields s j) else form_fields s j)\<rparr>"
      by (simp only: F) simp
    show ?thesis
    proof (cases "truthy (validateField k (el_value f))")
      case True
      have "validate_all (k # ks) s ok fi
          = validate_all ks ?s' False (if fi = None then Some k else fi)"
        using Some True by (simp add: marked_def Let_def)
      also have "\<dots> = (?s'\<lparr>form_fields :=
          (\<lambda>j. if j \<in> set ks then map_option (marked j) (form_fields ?s' j) else form_fields ?s' j)\<rparr>,
          False \<and> (\<forall>j\<in>set ks. \<not> invalid_at ?s' j),
          if (if fi = None then Some k else fi) \<noteq> None then (if fi = None then Some k else fi)
          else find (invalid_at ?s') ks)"
        by (rule Cons.IH[OF d(2)])
      finally show ?thesis using True ik by (simp only: st) auto
    next
      case False
      have "validate_all (k # ks) s ok fi = validate_all ks ?s' ok fi"
        using Some False by (simp add: marked_def Let_def)
      also have "\<dots> = (?s'\<lparr>form_fields :=
          (\<lambda>j. if j \<in> set ks then map_option (marked j) (form_fields ?s' j) else form_fields ?s' j)\<rparr>,
          ok \<and> (\<forall>j\<in>set ks. \<not> invalid_at ?s' j),
          if fi \<noteq> None then fi else find (invalid_at ?s') ks)"
        by (rule Cons.IH[OF d(2)])
      finally show ?thesis using False ik by (simp only: st A Fi) auto
    qed
  qed
qed

lemma validate_all_rule_keys:
  "validate_all rule_keys s True None =
     (validated s, first_invalid s = None, first_invalid s)"
proof -
  have "(\<forall>k\<in>set rule_keys. \<not> invalid_at s k) \<longleftrightarrow> find (invalid_at s) rule_keys = None"
    by (auto simp: find_None_iff)
  then show ?thesis
    by (simp add: validate_all_closed[OF distinct_rule_keys] validated_def first_invalid_def)
qed

lemma first_invalid_Some:
  "first_invalid s = Some k \<Longrightarrow> k \<in> set rule_keys \<and> invalid_at s k"
  unfolding first_invalid_def by (auto simp: find_Some_iff)

lemma validated_fields:
  "form_fields (validated s) k =
     (if k \<in> set rule_keys then map_option (marked k) (form_fields s k) else form_fields s k)"
  by (simp add: validated_def)

lemma validated_other [simp]:
  "has_form (validated s) = has_form s" "submitBtn (validated s) = submitBtn s"
  "successMsg (validated s) = successMsg s" "focused (validated s) = focused s"
  "prevented (validated s) = prevented s" "submit_listeners (validated s) = submit_listeners s"
  "timers (validated s) = timers s" "now (validated s) = now s"
  "uncaught (validated s) = uncaught s"
  by (simp_all add: validated_def)

lemma validated_upd [simp]:
  "validated (s\<lparr>prevented := p\<rparr>) = (validated s)\<lparr>prevented := p\<rparr>"
  by (simp add: validated_def cong: if_cong)

lemma first_invalid_upd [simp]: "first_invalid (s\<lparr>prevented := p\<rparr>) = first_invalid s"
proof -
  have "invalid_at (s\<lparr>prevented := p\<rparr>) = invalid_at s"
    by (rule ext) (simp add: invalid_at_def)
  then show ?thesis by (simp add: first_invalid_def)
qed

lemma blur_listener_validated:
  "g \<in> set rule_keys \<Longrightarrow> blur_listener g ((validated s)\<lparr>prevented := p\<rparr>) = (validated s)\<lparr>prevented := p\<rparr>"
proof -
  assume g: "g \<in> set rule_keys"
  show ?thesis
  proof (cases "form_fields s g")
    case None
    then show ?thesis using g by (simp add: blur_listener_def validated_fields)
  next
    case (Some f)
    have "(form_fields (validated s))(g \<mapsto> marked g f) = form_fields (validated s)"
      using g Some by (auto simp: validated_fields)
    moreover have "setFieldError (marked g f) (validateField g (el_value f)) = marked g f"
      using marked_idem[of g f] by (simp add: marked_def)
    ultimately show ?thesis using g Some
      by (simp add: blur_listener_def validated_fields)
  qed
qed

lemma focus_validated:
  "focused (focus k ((validated s)\<lparr>prevented := p\<rparr>)) = Some k \<and>
   focus k ((validated s)\<lparr>prevented := p\<rparr>) = (validated s)\<lparr>prevented := p, focused := Some k\<rparr>"
proof (cases "focused s")
  case None
  then show ?thesis by (simp add: focus_def)
next
  case (Some g)
  show ?thesis
  proof (cases "g = k")
    case True
    have "(validated s)\<lparr>prevented := p\<rparr> = (validated s)\<lparr>prevented := p, focused := Some k\<rparr>"
      using Some True by simp
    then show ?thesis using Some True by (simp add: focus_def)
  next
    case False
    then show ?thesis using Some by (simp add: focus_def blur_listener_validated)
  qed
qed

lemma contact_submit_invalid:
  assumes "first_invalid s = Some k"
  shows "contact_submit s = (validated s)\<lparr>prevented := True, focused := Some k\<rparr>"
  using assms focus_validated[where k=k and s=s and p=True]
  by (simp add: contact_submit_def validate_all_rule_keys)

lemma contact_submit_valid:
  assumes "first_invalid s = None" and "submitBtn s = Some b"
  shows "contact_submit s =
     setTimeout 900 SubmitDone
       ((validated s)\<lparr>prevented := True,
          submitBtn := Some (b\<lparr>disabled := True, content := Text sending_caption,
                                opacity := ascii ''0.7''\<rparr>)\<rparr>)"
  using assms by (simp add: contact_submit_def validate_all_rule_keys)

section \<open>Facts about timers and the event loop\<close>

lemma patch_submit_closed:
  "patch_submit s =
     s\<lparr>timers := insert_timer (now s + 900, RemoveSubmitting)
                   (insert_timer (now s, AddSubmitting) (timers s))\<rparr>"
  by (simp add: patch_submit_def setTimeout_def)

lemma invalid_at_cong: "form_fields s' = form_fields s \<Longrightarrow> invalid_at s' = invalid_at s"
  by (rule ext) (simp add: invalid_at_def)

lemma first_invalid_cong: "form_fields s' = form_fields s \<Longrightarrow> first_invalid s' = first_invalid s"
  unfolding first_invalid_def by (drule invalid_at_cong) simp

lemma first_invalid_timers [simp]: "first_invalid (s\<lparr>timers := T\<rparr>) = first_invalid s"
  by (rule first_invalid_cong) simp

lemma validated_timers [simp]: "validated (s\<lparr>timers := T\<rparr>) = (validated s)\<lparr>timers := T\<rparr>"
  by (simp add: validated_def cong: if_cong)

lemma clear_all_closed:
  "distinct ks \<Longrightarrow>
   clear_all ks s =
     s\<lparr>form_fields :=
         (\<lambda>k. if k \<in> set ks then map_option (\<lambda>f. setFieldError f (Some [])) (form_fields s k)
              else form_fields s k)\<rparr>"
proof (induction ks arbitrary: s)
  case Nil
  then show ?case by simp
next
  case (Cons k ks)
  then have d: "k \<notin> set ks" "distinct ks" by simp_all
  show ?case
  proof (cases "form_fields s k")
    case None
    have "(\<lambda>j. if j \<in> set (k # ks) then map_option (\<lambda>f. setFieldError f (Some [])) (form_fields s j)
               else form_fields s j)
        = (\<lambda>j. if j \<in> set ks then map_option (\<lambda>f. setFieldError f (Some [])) (form_fields s j)
               else form_fields s j)"
      using None by auto
    then show ?thesis using None Cons.IH[OF d(2)] by simp
  next
    case (Some f)
    let ?s' = "s\<lparr>form_fields := (form_fields s)(k \<mapsto> setFieldError f (Some []))\<rparr>"
    have F: "(\<lambda>j. if j \<in> set ks then map_option (\<lambda>f. setFieldError f (Some [])) (form_fields ?s' j)
               else form_fields ?s' j)
        = (\<lambda>j. if j \<in> set (k # ks) then map_option (\<lambda>f. setFieldError f (Some [])) (form_fields s j)
               else form_fields s j)"
      using Some d(1) by auto
    have "clear_all (k # ks) s = clear_all ks ?s'" using Some by simp
    also have "\<dots> = ?s'\<lparr>form_fields :=
         (\<lambda>j. if j \<in> set ks then map_option (\<lambda>f. setFieldError f (Some [])) (form_fields ?s' j)
              else form_fields ?s' j)\<rparr>"
      by (rule Cons.IH[OF d(2)])
    finally show ?thesis by (simp only: F) simp
  qed
qed

lemma run_task_SubmitDone_closed:
  assumes "submitBtn s = Some b"
  shows "run_task SubmitDone s =
    s\<lparr>form_fields :=
         (\<lambda>k. if k \<in> set rule_keys
              then map_option (\<lambda>f. setFieldError (f\<lparr>el_value := el_default f\<rparr>) (Some []))
                     (form_fields s k)
              else map_option (\<lambda>f. f\<lparr>el_value := el_default f\<rparr>) (form_fields s k)),
       submitBtn := Some (b\<lparr>disabled := False, content := Html submit_markup, opacity := []\<rparr>),
       successMsg := map_option (\<lambda>_. False) (successMsg s),
       timers := (if successMsg s = None then timers s
                  else insert_timer (now s + 6000, HideSuccess) (timers s))\<rparr>"
proof (cases "successMsg s")
  case None
  show ?thesis
    using assms None
    by (simp add: Let_def form_reset_def clear_all_closed[OF distinct_rule_keys]
        option.map_comp comp_def cong: if_cong)
next
  case (Some h)
  show ?thesis
    using assms Some
    by (simp add: Let_def form_reset_def setTimeout_def clear_all_closed[OF distinct_rule_keys]
        option.map_comp comp_def cong: if_cong)
qed

section \<open>Submitting the form: claims\<close>

lemma listener_cases:
  assumes "submit_listeners s \<in> set listener_orders"
  obtains "submit_listeners s = [ContactSubmit, PatchSubmit, PatchSubmit]"
  | "submit_listeners s = [PatchSubmit, ContactSubmit, PatchSubmit]"
  | "submit_listeners s = [ContactSubmit, PatchSubmit]"
  using assms by (auto simp: listener_orders_def)

lemma script_registers:
  assumes "has_form s" and "submitBtn s \<noteq> None" and "submit_listeners s = []"
  shows "submit_listeners (script_form_part loading early s) \<in> set listener_orders"
  using assms
  by (auto simp: script_form_part_def onReady_form_part_def initContactForm_def
      patchFormSubmitButton_def listener_orders_def)

lemma mem_insert_timer: "x \<in> set (insert_timer y ys) \<longleftrightarrow> x = y \<or> x \<in> set ys"
  by (induction ys) auto

lemma submit_event_invalid:
  assumes "first_invalid s = Some k" and "submit_listeners s \<in> set listener_orders"
  shows "prevented (submit_event s)"
    and "focused (submit_event s) = Some k"
    and "form_fields (submit_event s) = form_fields (validated s)"
    and "submitBtn (submit_event s) = submitBtn s"
    and "successMsg (submit_event s) = successMsg s"
    and "\<forall>d. (d, SubmitDone) \<in> set (timers (submit_event s)) \<longrightarrow>
             (d, SubmitDone) \<in> set (timers s)"
  using assms(2)
  by (cases rule: listener_cases;
      simp add: submit_event_def contact_submit_invalid[OF assms(1)]
        contact_submit_invalid[of s k, simplified, OF assms(1)] assms(1)
        contact_submit_invalid patch_submit_closed mem_insert_timer)+

text \<open>
  Claim C3. When some tracked field is invalid, a submit validates every tracked field of
  the form in the order name, phone, message and renders each outcome (the invalid ones
  get the class, \<open>aria-invalid = true\<close> and their message as error text), gives the focus
  to the first invalid field of that order, and stops: the default action is prevented,
  the submit control and the success notice are untouched, no completion of a submission
  is scheduled, and every field keeps its value.
\<close>

theorem submit_invalid:
  assumes "first_invalid s = Some k" and "submit_listeners s \<in> set listener_orders"
  shows
    "prevented (submit_event s) \<and>
     (\<forall>j\<in>set rule_keys.
        form_fields (submit_event s) j = map_option (marked j) (form_fields s j)) \<and>
     (\<forall>j\<in>set rule_keys. invalid_at s j \<longrightarrow>
        (\<exists>f f'. form_fields s j = Some f \<and> form_fields (submit_event s) j = Some f' \<and>
           is_invalid f' \<and> aria_invalid f' = Some (ascii ''true'') \<and>
           error_text f' = map_option (\<lambda>_. the (validateField j (el_value f))) (error_text f))) \<and>
     find (invalid_at s) [formName, formPhone, formMessage] = Some k \<and>
     focused (submit_event s) = Some k \<and>
     (\<forall>j f. form_fields s j = Some f \<longrightarrow>
        (\<exists>f'. form_fields (submit_event s) j = Some f' \<and> el_value f' = el_value f)) \<and>
     submitBtn (submit_event s) = submitBtn s \<and>
     successMsg (submit_event s) = successMsg s \<and>
     (\<forall>d. (d, SubmitDone) \<in> set (timers (submit_event s)) \<longrightarrow>
          (d, SubmitDone) \<in> set (timers s))"
proof -
  note e = submit_event_invalid[OF assms]
  have b: "\<forall>j\<in>set rule_keys.
        form_fields (submit_event s) j = map_option (marked j) (form_fields s j)"
    by (simp add: e validated_fields)
  have c: "\<forall>j\<in>set rule_keys. invalid_at s j \<longrightarrow>
        (\<exists>f f'. form_fields s j = Some f \<and> form_fields (submit_event s) j = Some f' \<and>
           is_invalid f' \<and> aria_invalid f' = Some (ascii ''true'') \<and>
           error_text f' = map_option (\<lambda>_. the (validateField j (el_value f))) (error_text f))"
    by (auto simp: e validated_fields invalid_at_def marked_def setFieldError_aria
        setFieldError_text split: option.splits)
  have d: "find (invalid_at s) [formName, formPhone, formMessage] = Some k"
    using assms(1) by (simp only: first_invalid_def rule_keys_eq)
  have f: "\<forall>j f. form_fields s j = Some f \<longrightarrow>
        (\<exists>f'. form_fields (submit_event s) j = Some f' \<and> el_value f' = el_value f)"
    by (simp add: e validated_fields)
  from e(1,2,4,5,6) b c d f show ?thesis by blast
qed

lemma invalid_at_example [simp]:
  "invalid_at (example_page n p m) formName = truthy (validateField formName n)"
  "invalid_at (example_page n p m) formPhone = truthy (validateField formPhone p)"
  "invalid_at (example_page n p m) formMessage = truthy (validateField formMessage m)"
  by (simp_all add: invalid_at_def example_field_def)

lemma example_other [simp]:
  "submit_listeners (example_page n p m) = [ContactSubmit, PatchSubmit, PatchSubmit]"
  "timers (example_page n p m) = []" "now (example_page n p m) = 0"
  "successMsg (example_page n p m) = Some True"
  "submitBtn (example_page n p m) = Some \<lparr>disabled = False, content = Html submit_markup,
      opacity = [], submitting = False\<rparr>"
  "focused (example_page n p m) = None"
  by (simp_all add: example_page_def)

lemma example_orders [simp]: "submit_listeners (example_page n p m) \<in> set listener_orders"
  by (simp add: listener_orders_def)

theorem submit_invalid_witness:
  "first_invalid (example_page (ascii ''Ana Anic'') (ascii ''abc'') []) = Some formPhone \<and>
   submit_listeners (example_page (ascii ''Ana Anic'') (ascii ''abc'') []) \<in> set listener_orders \<and>
   formMessage \<in> set rule_keys \<and>
   invalid_at (example_page (ascii ''Ana Anic'') (ascii ''abc'') []) formMessage \<and>
   focused (submit_event (example_page (ascii ''Ana Anic'') (ascii ''abc'') [])) = Some formPhone \<and>
   form_fields (submit_event (example_page (ascii ''Ana Anic'') (ascii ''abc'') [])) formName
     = Some ((example_field (ascii ''Ana Anic''))\<lparr>aria_invalid := Some (ascii ''false'')\<rparr>) \<and>
   form_fields (submit_event (example_page (ascii ''Ana Anic'') (ascii ''abc'') [])) formPhone
     = Some ((example_field (ascii ''abc''))\<lparr>is_invalid := True,
          aria_invalid := Some (ascii ''true''),
          error_text := Some (ascii ''Unesite ispravan broj telefona.'')\<rparr>) \<and>
   form_fields (submit_event (example_page (ascii ''Ana Anic'') (ascii ''abc'') [])) formMessage
     = Some ((example_field [])\<lparr>is_invalid := True,
          aria_invalid := Some (ascii ''true''),
          error_text := Some (ascii ''Opis problema je obavezan.'')\<rparr>) \<and>
   submitBtn (submit_event (example_page (ascii ''Ana Anic'') (ascii ''abc'') []))
     = Some \<lparr>disabled = False, content = Html submit_markup, opacity = [], submitting = False\<rparr>"
proof -
  let ?s = "example_page (ascii ''Ana Anic'') (ascii ''abc'') []"
  have v: "validateField formName (ascii ''Ana Anic'') = Some []"
    "validateField formPhone (ascii ''abc'') = Some (ascii ''Unesite ispravan broj telefona.'')"
    "validateField formMessage [] = Some (ascii ''Opis problema je obavezan.'')"
    by (simp_all add: validateField_formName validateField_formPhone validateField_formMessage
        trim_examples phone_ok_examples) (simp_all add: ascii_def)
  have t: "truthy (Some (ascii ''Unesite ispravan broj telefona.''))"
    "truthy (Some (ascii ''Opis problema je obavezan.''))"
    by (simp_all add: ascii_def)
  have fi: "first_invalid ?s = Some formPhone"
    by (simp add: first_invalid_def rule_keys_eq v t)
  have im: "invalid_at ?s formMessage" by (simp add: v t)
  note th = submit_invalid[OF fi example_orders]
  from th have foc: "focused (submit_event ?s) = Some formPhone" by blast
  from th have btn: "submitBtn (submit_event ?s) = submitBtn ?s" by blast
  from th have fl: "\<forall>j\<in>set rule_keys.
        form_fields (submit_event ?s) j = map_option (marked j) (form_fields ?s j)" by blast
  have f1: "form_fields (submit_event ?s) formName
     = Some ((example_field (ascii ''Ana Anic''))\<lparr>aria_invalid := Some (ascii ''false'')\<rparr>)"
    using fl v by (simp add: marked_def setFieldError_def example_field_def)
  have f2: "form_fields (submit_event ?s) formPhone
     = Some ((example_field (ascii ''abc''))\<lparr>is_invalid := True,
          aria_invalid := Some (ascii ''true''),
          error_text := Some (ascii ''Unesite ispravan broj telefona.'')\<rparr>)"
    using fl v t by (simp add: marked_def setFieldError_def example_field_def)
  have f3: "form_fields (submit_event ?s) formMessage
     = Some ((example_field [])\<lparr>is_invalid := True,
          aria_invalid := Some (ascii ''true''),
          error_text := Some (ascii ''Opis problema je obavezan.'')\<rparr>)"
    using fl v t by (simp add: marked_def setFieldError_def example_field_def)
  from fi im foc btn f1 f2 f3 show ?thesis by (simp add: listener_orders_def)
qed

lemma first_invalid_None_upd [simp]:
  "first_invalid (s\<lparr>timers := T, prevented := p\<rparr>) = first_invalid s"
  by (rule first_invalid_cong) simp

lemma submit_event_valid_gen:
  assumes "first_invalid s = None" and "submitBtn s = Some b"
  shows
    "submit_listeners s = [ContactSubmit, PatchSubmit, PatchSubmit] \<Longrightarrow>
     submit_event s =
       (validated s)\<lparr>prevented := True,
          submitBtn := Some (b\<lparr>disabled := True, content := Text sending_caption,
                                opacity := ascii ''0.7''\<rparr>),
          timers := insert_timer (now s + 900, RemoveSubmitting)
                     (insert_timer (now s, AddSubmitting)
                       (insert_timer (now s + 900, RemoveSubmitting)
                         (insert_timer (now s, AddSubmitting)
                           (insert_timer (now s + 900, SubmitDone) (timers s)))))\<rparr>"
    "submit_listeners s = [PatchSubmit, ContactSubmit, PatchSubmit] \<Longrightarrow>
     submit_event s =
       (validated s)\<lparr>prevented := True,
          submitBtn := Some (b\<lparr>disabled := True, content := Text sending_caption,
                                opacity := ascii ''0.7''\<rparr>),
          timers := insert_timer (now s + 900, RemoveSubmitting)
                     (insert_timer (now s, AddSubmitting)
                       (insert_timer (now s + 900, SubmitDone)
                         (insert_timer (now s + 900, RemoveSubmitting)
                           (insert_timer (now s, AddSubmitting) (timers s)))))\<rparr>"
    "submit_listeners s = [ContactSubmit, PatchSubmit] \<Longrightarrow>
     submit_event s =
       (validated s)\<lparr>prevented := True,
          submitBtn := Some (b\<lparr>disabled := True, content := Text sending_caption,
                                opacity := ascii ''0.7''\<rparr>),
          timers := insert_timer (now s + 900, RemoveSubmitting)
                     (insert_timer (now s, AddSubmitting)
                       (insert_timer (now s + 900, SubmitDone) (timers s)))\<rparr>"
  using assms
  by (simp_all add: submit_event_def contact_submit_valid patch_submit_closed setTimeout_def)

lemma submit_event_valid:
  assumes "first_invalid s = None" and "submitBtn s = Some b" and "timers s = []"
  shows
    "submit_listeners s = [ContactSubmit, PatchSubmit, PatchSubmit] \<Longrightarrow>
     submit_event s =
       (validated s)\<lparr>prevented := True,
          submitBtn := Some (b\<lparr>disabled := True, content := Text sending_caption,
                                opacity := ascii ''0.7''\<rparr>),
          timers := [(now s, AddSubmitting), (now s, AddSubmitting), (now s + 900, SubmitDone),
                     (now s + 900, RemoveSubmitting), (now s + 900, RemoveSubmitting)]\<rparr>"
    "submit_listeners s = [PatchSubmit, ContactSubmit, PatchSubmit] \<Longrightarrow>
     submit_event s =
       (validated s)\<lparr>prevented := True,
          submitBtn := Some (b\<lparr>disabled := True, content := Text sending_caption,
                                opacity := ascii ''0.7''\<rparr>),
          timers := [(now s, AddSubmitting), (now s, AddSubmitting),
                     (now s + 900, RemoveSubmitting), (now s + 900, SubmitDone),
                     (now s + 900, RemoveSubmitting)]\<rparr>"
    "submit_listeners s = [ContactSubmit, PatchSubmit] \<Longrightarrow>
     submit_event s =
       (validated s)\<lparr>prevented := True,
          submitBtn := Some (b\<lparr>disabled := True, content := Text sending_caption,
                                opacity := ascii ''0.7''\<rparr>),
          timers := [(now s, AddSubmitting), (now s + 900, SubmitDone),
                     (now s + 900, RemoveSubmitting)]\<rparr>"
  using assms(3)
  by (simp_all add: submit_event_valid_gen[OF assms(1,2)])

lemma run_until_fire:
  "timers s = (due, task) # rest \<Longrightarrow> due \<le> t \<Longrightarrow>
   run_until t s = run_until t (run_task task (s\<lparr>timers := rest, now := max (now s) due\<rparr>))"
  by (subst run_until.simps) simp

lemma run_until_stop:
  "timers s = (due, task) # rest \<Longrightarrow> t < due \<Longrightarrow>
   run_until t s = s\<lparr>now := max (now s) t\<rparr>"
  by (subst run_until.simps) simp

lemma run_until_empty:
  "timers s = [] \<Longrightarrow> run_until t s = s\<lparr>now := max (now s) t\<rparr>"
  by (subst run_until.simps) simp

lemma run_until_step:
  "timers s \<noteq> [] \<Longrightarrow> fst (hd (timers s)) \<le> t \<Longrightarrow>
   run_until t s =
     run_until t (run_task (snd (hd (timers s)))
       (s\<lparr>timers := tl (timers s), now := max (now s) (fst (hd (timers s)))\<rparr>))"
  by (subst run_until.simps) (auto split: list.splits)

lemma run_until_halt:
  "timers s \<noteq> [] \<Longrightarrow> t < fst (hd (timers s)) \<Longrightarrow>
   run_until t s = s\<lparr>now := max (now s) t\<rparr>"
  by (subst run_until.simps) (auto split: list.splits)

lemmas run_until_eval = run_until_step run_until_halt run_until_empty


lemma run_task_SubmitDone_eval:
  "submitBtn s \<noteq> None \<Longrightarrow>
   run_task SubmitDone s =
    s\<lparr>form_fields :=
         (\<lambda>k. if k \<in> set rule_keys
              then map_option (\<lambda>f. setFieldError (f\<lparr>el_value := el_default f\<rparr>) (Some []))
                     (form_fields s k)
              else map_option (\<lambda>f. f\<lparr>el_value := el_default f\<rparr>) (form_fields s k)),
       submitBtn := map_option
          (\<lambda>b. b\<lparr>disabled := False, content := Html submit_markup, opacity := []\<rparr>) (submitBtn s),
       successMsg := map_option (\<lambda>_. False) (successMsg s),
       timers := (if successMsg s = None then timers s
                  else insert_timer (now s + 6000, HideSuccess) (timers s))\<rparr>"
  using run_task_SubmitDone_closed[of s] by auto

lemma valid_phase2:
  assumes "first_invalid s = None" and "submitBtn s = Some b" and "timers s = []"
    and "submit_listeners s \<in> set listener_orders"
    and "now s + 900 \<le> t" and "t < now s + 6900"
  shows "run_until t (submit_event s) =
     (validated s)\<lparr>prevented := True,
        form_fields :=
         (\<lambda>k. if k \<in> set rule_keys
              then map_option (\<lambda>f. setFieldError (f\<lparr>el_value := el_default f\<rparr>) (Some []))
                     (form_fields (validated s) k)
              else map_option (\<lambda>f. f\<lparr>el_value := el_default f\<rparr>) (form_fields (validated s) k)),
        submitBtn := Some (b\<lparr>disabled := False, content := Html submit_markup,
                    opacity := [], submitting := False\<rparr>),
        successMsg := map_option (\<lambda>_. False) (successMsg s),
        timers := (if successMsg s = None then [] else [(now s + 6900, HideSuccess)]),
        now := t\<rparr>"
  using assms(4)
proof (cases rule: listener_cases)
  case 1
  show ?thesis
    using assms(5,6)
    by (cases "successMsg s")
      (simp_all add: submit_event_valid(1)[OF assms(1-3) 1] run_until_eval
        run_task_SubmitDone_eval max_def del: run_task.simps(1) cong: if_cong)
next
  case 2
  show ?thesis
    using assms(5,6)
    by (cases "successMsg s")
      (simp_all add: submit_event_valid(2)[OF assms(1-3) 2] run_until_eval
        run_task_SubmitDone_eval max_def del: run_task.simps(1) cong: if_cong)
next
  case 3
  show ?thesis
    using assms(5,6)
    by (cases "successMsg s")
      (simp_all add: submit_event_valid(3)[OF assms(1-3) 3] run_until_eval
        run_task_SubmitDone_eval max_def del: run_task.simps(1) cong: if_cong)
qed

lemma valid_phase3:
  assumes "first_invalid s = None" and "submitBtn s = Some b" and "timers s = []"
    and "submit_listeners s \<in> set listener_orders"
    and "now s + 6900 \<le> t"
  shows "run_until t (submit_event s) =
     (validated s)\<lparr>prevented := True,
        form_fields :=
         (\<lambda>k. if k \<in> set rule_keys
              then map_option (\<lambda>f. setFieldError (f\<lparr>el_value := el_default f\<rparr>) (Some []))
                     (form_fields (validated s) k)
              else map_option (\<lambda>f. f\<lparr>el_value := el_default f\<rparr>) (form_fields (validated s) k)),
        submitBtn := Some (b\<lparr>disabled := False, content := Html submit_markup,
                    opacity := [], submitting := False\<rparr>),
        successMsg := map_option (\<lambda>_. True) (successMsg s),
        timers := [],
        now := t\<rparr>"
  using assms(4)
proof (cases rule: listener_cases)
  case 1
  show ?thesis
    using assms(5)
    by (cases "successMsg s")
      (simp_all add: submit_event_valid(1)[OF assms(1-3) 1] run_until_eval
        run_task_SubmitDone_eval max_def del: run_task.simps(1) cong: if_cong)
next
  case 2
  show ?thesis
    using assms(5)
    by (cases "successMsg s")
      (simp_all add: submit_event_valid(2)[OF assms(1-3) 2] run_until_eval
        run_task_SubmitDone_eval max_def del: run_task.simps(1) cong: if_cong)
next
  case 3
  show ?thesis
    using assms(5)
    by (cases "successMsg s")
      (simp_all add: submit_event_valid(3)[OF assms(1-3) 3] run_until_eval
        run_task_SubmitDone_eval max_def del: run_task.simps(1) cong: if_cong)
qed

lemma submit_event_invalid_gen:
  assumes "first_invalid s = Some k"
  shows
    "submit_listeners s = [ContactSubmit, PatchSubmit, PatchSubmit] \<Longrightarrow>
     submit_event s =
       (validated s)\<lparr>prevented := True, focused := Some k,
          timers := insert_timer (now s + 900, RemoveSubmitting)
                     (insert_timer (now s, AddSubmitting)
                       (insert_timer (now s + 900, RemoveSubmitting)
                         (insert_timer (now s, AddSubmitting) (timers s))))\<rparr>"
    "submit_listeners s = [PatchSubmit, ContactSubmit, PatchSubmit] \<Longrightarrow>
     submit_event s =
       (validated s)\<lparr>prevented := True, focused := Some k,
          timers := insert_timer (now s + 900, RemoveSubmitting)
                     (insert_timer (now s, AddSubmitting)
                       (insert_timer (now s + 900, RemoveSubmitting)
                         (insert_timer (now s, AddSubmitting) (timers s))))\<rparr>"
    "submit_listeners s = [ContactSubmit, PatchSubmit] \<Longrightarrow>
     submit_event s =
       (validated s)\<lparr>prevented := True, focused := Some k,
          timers := insert_timer (now s + 900, RemoveSubmitting)
                     (insert_timer (now s, AddSubmitting) (timers s))\<rparr>"
  using assms
  by (simp_all add: submit_event_def contact_submit_invalid patch_submit_closed)

lemma submit_event_invalid_closed:
  assumes "first_invalid s = Some k" and "timers s = []"
  shows
    "submit_listeners s = [ContactSubmit, PatchSubmit, PatchSubmit] \<Longrightarrow>
     submit_event s =
       (validated s)\<lparr>prevented := True, focused := Some k,
          timers := [(now s, AddSubmitting), (now s, AddSubmitting),
                     (now s + 900, RemoveSubmitting), (now s + 900, RemoveSubmitting)]\<rparr>"
    "submit_listeners s = [PatchSubmit, ContactSubmit, PatchSubmit] \<Longrightarrow>
     submit_event s =
       (validated s)\<lparr>prevented := True, focused := Some k,
          timers := [(now s, AddSubmitting), (now s, AddSubmitting),
                     (now s + 900, RemoveSubmitting), (now s + 900, RemoveSubmitting)]\<rparr>"
    "submit_listeners s = [ContactSubmit, PatchSubmit] \<Longrightarrow>
     submit_event s =
       (validated s)\<lparr>prevented := True, focused := Some k,
          timers := [(now s, AddSubmitting), (now s + 900, RemoveSubmitting)]\<rparr>"
  using assms(2)
  by (simp_all add: submit_event_invalid_gen[OF assms(1)])


lemma invalid_phase2:
  assumes "first_invalid s = Some k" and "submitBtn s = Some b" and "timers s = []"
    and "submit_listeners s \<in> set listener_orders"
    and "now s + 900 \<le> t"
  shows "submitBtn (run_until t (submit_event s)) = Some (b\<lparr>submitting := False\<rparr>)"
  using assms(4)
proof (cases rule: listener_cases)
  case 1
  show ?thesis using assms(2,5)
    by (simp add: submit_event_invalid_closed(1)[OF assms(1,3) 1] run_until_eval)
next
  case 2
  show ?thesis using assms(2,5)
    by (simp add: submit_event_invalid_closed(2)[OF assms(1,3) 2] run_until_eval)
next
  case 3
  show ?thesis using assms(2,5)
    by (simp add: submit_event_invalid_closed(3)[OF assms(1,3) 3] run_until_eval)
qed

section \<open>The event loop on a queue that is not empty\<close>

lemma insert_timer_append:
  "\<forall>y\<in>set P. fst y \<le> fst x \<Longrightarrow> insert_timer x (P @ Q) = P @ insert_timer x Q"
  by (induction P) auto

lemma insert_timer_before:
  "fst x < fst y \<Longrightarrow> insert_timer x (P @ y # R) = insert_timer x P @ y # R"
  by (induction P) auto

lemma set_insert_timer: "set (insert_timer x P) = insert x (set P)"
  by (induction P) auto

lemma insert_timer_split:
  "\<exists>A B. insert_timer x Q = A @ [x] @ B \<and> (\<forall>y\<in>set A. fst y \<le> fst x) \<and>
         (B = [] \<or> fst x < fst (hd B))"
proof (induction Q)
  case Nil
  show ?case by (rule exI[of _ "[]"], rule exI[of _ "[]"]) simp
next
  case (Cons q Q)
  show ?case
  proof (cases "fst q \<le> fst x")
    case True
    from Cons obtain A B where
      ab: "insert_timer x Q = A @ [x] @ B" "\<forall>y\<in>set A. fst y \<le> fst x" "B = [] \<or> fst x < fst (hd B)"
      by blast
    have "insert_timer x (q # Q) = (q # A) @ [x] @ B" using True ab(1) by simp
    moreover have "\<forall>y\<in>set (q # A). fst y \<le> fst x" using True ab(2) by simp
    ultimately show ?thesis using ab(3) by blast
  next
    case False
    show ?thesis
      by (rule exI[of _ "[]"], rule exI[of _ "q # Q"]) (use False in simp)
  qed
qed

lemma insert_timer_hd:
  "B = [] \<or> t < fst (hd B) \<Longrightarrow> t < fst x \<Longrightarrow>
   insert_timer x B \<noteq> [] \<and> t < fst (hd (insert_timer x B))"
  by (cases B) auto

lemma same_shape_refl: "same_shape s s"
  by (simp add: same_shape_def option.rel_refl)

lemma same_shape_trans:
  assumes "same_shape s s'" and "same_shape s' s''"
  shows "same_shape s s''"
proof -
  have "\<And>k. rel_option (\<lambda>f f'. el_default f' = el_default f \<and>
                              (error_text f' = None \<longleftrightarrow> error_text f = None))
            (form_fields s k) (form_fields s'' k)"
  proof -
    fix k
    from assms have
      1: "rel_option (\<lambda>f f'. el_default f' = el_default f \<and>
                              (error_text f' = None \<longleftrightarrow> error_text f = None))
            (form_fields s k) (form_fields s' k)"
      and 2: "rel_option (\<lambda>f f'. el_default f' = el_default f \<and>
                              (error_text f' = None \<longleftrightarrow> error_text f = None))
            (form_fields s' k) (form_fields s'' k)"
      by (simp_all add: same_shape_def)
    then show "rel_option (\<lambda>f f'. el_default f' = el_default f \<and>
                              (error_text f' = None \<longleftrightarrow> error_text f = None))
            (form_fields s k) (form_fields s'' k)"
      by (cases "form_fields s k"; cases "form_fields s' k"; cases "form_fields s'' k") auto
  qed
  with assms show ?thesis by (simp add: same_shape_def)
qed

lemma setFieldError_shape [simp]:
  "(error_text (setFieldError f m) = None) = (error_text f = None)"
  by (simp add: setFieldError_def)

lemma run_task_shape:
  "same_shape s (run_task x (s\<lparr>timers := T, now := max (now s) d\<rparr>))"
proof (cases x)
  case SubmitDone
  show ?thesis
  proof (cases "submitBtn s")
    case None
    then show ?thesis using SubmitDone
      by (auto simp: same_shape_def form_reset_def Let_def option.rel_map intro!: option.rel_refl)
  next
    case (Some b)
    then have "submitBtn (s\<lparr>timers := T, now := max (now s) d\<rparr>) \<noteq> None" by simp
    from run_task_SubmitDone_eval[OF this] show ?thesis using SubmitDone Some
      by (auto simp: same_shape_def option.rel_map intro!: option.rel_refl)
  qed
qed (auto simp: same_shape_def option.rel_refl)

lemma run_task_timers:
  "timers (run_task x (s\<lparr>timers := T, now := n\<rparr>)) = T \<or>
   timers (run_task x (s\<lparr>timers := T, now := n\<rparr>)) = insert_timer (n + 6000, HideSuccess) T"
proof (cases x)
  case SubmitDone
  show ?thesis
  proof (cases "submitBtn s")
    case None
    then show ?thesis using SubmitDone by (simp add: form_reset_def Let_def)
  next
    case (Some b)
    then have "submitBtn (s\<lparr>timers := T, now := n\<rparr>) \<noteq> None" by simp
    from run_task_SubmitDone_eval[OF this] show ?thesis using SubmitDone by simp
  qed
qed simp_all

lemma run_prefix:
  assumes "\<forall>x\<in>set A. fst x \<le> t" and "\<forall>x\<in>set C. fst x \<le> t"
    and "B = [] \<or> t < fst (hd B)" and "t < now s + 6000" and "timers s = A @ C @ B"
  shows "\<exists>s' B'. run_until t s = run_until t s' \<and> timers s' = C @ B' \<and>
           (B' = [] \<or> t < fst (hd B')) \<and> same_shape s s'"
  using assms
proof (induction A arbitrary: s B)
  case Nil
  then show ?case using same_shape_refl by auto
next
  case (Cons a A)
  obtain d x where a: "a = (d, x)" by (cases a)
  let ?s0 = "s\<lparr>timers := A @ C @ B, now := max (now s) d\<rparr>"
  let ?s1 = "run_task x ?s0"
  from Cons.prems a have d: "d \<le> t" by simp
  have fire: "run_until t s = run_until t ?s1"
    using Cons.prems(5) a d by (simp add: run_until_fire)
  have sh: "same_shape s ?s1" by (rule run_task_shape)
  then have now: "t < now ?s1 + 6000" using Cons.prems(4) by (simp add: same_shape_def)
  have AC: "\<forall>y\<in>set (A @ C). fst y \<le> fst (max (now s) d + 6000, HideSuccess)"
    using Cons.prems(1,2,4) by auto
  from run_task_timers[where x=x and s=s and T="A @ C @ B" and n="max (now s) d"]
  have "\<exists>B1. timers ?s1 = A @ C @ B1 \<and> (B1 = [] \<or> t < fst (hd B1))"
  proof
    assume "timers ?s1 = A @ C @ B"
    then show ?thesis using Cons.prems(3) by blast
  next
    assume "timers ?s1 = insert_timer (max (now s) d + 6000, HideSuccess) (A @ C @ B)"
    then have "timers ?s1 = A @ C @ insert_timer (max (now s) d + 6000, HideSuccess) B"
      using insert_timer_append[OF AC, of B] by simp
    moreover have "t < fst (max (now s) d + 6000, HideSuccess)"
      using Cons.prems(4) by simp
    from insert_timer_hd[OF Cons.prems(3) this]
    have "insert_timer (max (now s) d + 6000, HideSuccess) B = [] \<or>
          t < fst (hd (insert_timer (max (now s) d + 6000, HideSuccess) B))" by blast
    ultimately show ?thesis by blast
  qed
  then obtain B1 where B1: "timers ?s1 = A @ C @ B1" "B1 = [] \<or> t < fst (hd B1)" by blast
  have A: "\<forall>x\<in>set A. fst x \<le> t" using Cons.prems(1) by simp
  from Cons.IH[OF A Cons.prems(2) B1(2) now B1(1)]
  obtain s' B' where "run_until t ?s1 = run_until t s'" "timers s' = C @ B'"
    "B' = [] \<or> t < fst (hd B')" "same_shape ?s1 s'" by blast
  with fire sh show ?case using same_shape_trans by metis
qed

lemma ends_block_insert:
  "ends_block (insert_timer (t, X) Q) [(t, X)] t"
  using insert_timer_split[of "(t, X)" Q] by (auto simp: ends_block_def)

lemma ends_block_earlier:
  assumes "ends_block Q C t" and "C \<noteq> []" and "\<forall>y\<in>set C. fst y = t" and "d < t"
  shows "ends_block (insert_timer (d, Y) Q) C t"
proof -
  from assms(1) obtain A B where
    ab: "Q = A @ C @ B" "\<forall>y\<in>set A. fst y \<le> t" "B = [] \<or> t < fst (hd B)"
    by (auto simp: ends_block_def)
  from assms(2) obtain c C' where c: "C = c # C'" by (cases C) auto
  with assms(3,4) have "fst (d, Y) < fst c" by simp
  from insert_timer_before[OF this, of A "C' @ B"]
  have "insert_timer (d, Y) Q = insert_timer (d, Y) A @ C @ B"
    using ab(1) c by simp
  moreover have "\<forall>y\<in>set (insert_timer (d, Y) A). fst y \<le> t"
    using ab(2) assms(4) by (auto simp: set_insert_timer)
  ultimately show ?thesis using ab(3) unfolding ends_block_def by blast
qed

lemma ends_block_same:
  assumes "ends_block Q C t" and "\<forall>y\<in>set C. fst y \<le> t"
  shows "ends_block (insert_timer (t, Z) Q) (C @ [(t, Z)]) t"
proof -
  from assms(1) obtain A B where
    ab: "Q = A @ C @ B" "\<forall>y\<in>set A. fst y \<le> t" "B = [] \<or> t < fst (hd B)"
    by (auto simp: ends_block_def)
  have "\<forall>y\<in>set (A @ C). fst y \<le> fst (t, Z)" using ab(2) assms(2) by auto
  from insert_timer_append[OF this, of B]
  have "insert_timer (t, Z) Q = A @ C @ insert_timer (t, Z) B" using ab(1) by simp
  moreover have "insert_timer (t, Z) B = (t, Z) # B" using ab(3) by (cases B) auto
  ultimately have "insert_timer (t, Z) Q = A @ (C @ [(t, Z)]) @ B" by simp
  then show ?thesis using ab(2,3) unfolding ends_block_def by blast
qed


lemma run_to_block:
  assumes "ends_block (timers s) C t" and "\<forall>x\<in>set C. fst x \<le> t" and "t < now s + 6000"
  shows "\<exists>s' B'. run_until t s = run_until t s' \<and> timers s' = C @ B' \<and>
           (B' = [] \<or> t < fst (hd B')) \<and> same_shape s s'"
proof -
  from assms(1) obtain A B where
    ab: "timers s = A @ C @ B" "\<forall>y\<in>set A. fst y \<le> t" "B = [] \<or> t < fst (hd B)"
    by (auto simp: ends_block_def)
  from run_prefix[OF ab(2) assms(2) ab(3) assms(3) ab(1)] show ?thesis .
qed

lemma run_until_tail:
  "timers s = B \<Longrightarrow> B = [] \<or> t < fst (hd B) \<Longrightarrow> run_until t s = s\<lparr>now := max (now s) t\<rparr>"
  by (cases B) (auto simp: run_until_empty run_until_halt)





section \<open>A valid submission\<close>

lemma submit_valid_block:
  assumes "first_invalid s = None" and "submitBtn s = Some b"
    and "submit_listeners s \<in> set listener_orders"
  shows "\<exists>R. (R = [(now s + 900, RemoveSubmitting)] \<or>
              R = [(now s + 900, RemoveSubmitting), (now s + 900, RemoveSubmitting)]) \<and>
             ends_block (timers (submit_event s)) ((now s + 900, SubmitDone) # R) (now s + 900)"
  using assms(3)
proof (cases rule: listener_cases)
  case 1
  have "ends_block (insert_timer (now s + 900, SubmitDone) (timers s))
          [(now s + 900, SubmitDone)] (now s + 900)"
    by (rule ends_block_insert)
  then have "ends_block (insert_timer (now s, AddSubmitting)
          (insert_timer (now s + 900, SubmitDone) (timers s)))
          [(now s + 900, SubmitDone)] (now s + 900)"
    by (rule ends_block_earlier) simp_all
  then have "ends_block (insert_timer (now s + 900, RemoveSubmitting)
          (insert_timer (now s, AddSubmitting)
          (insert_timer (now s + 900, SubmitDone) (timers s))))
          ([(now s + 900, SubmitDone)] @ [(now s + 900, RemoveSubmitting)]) (now s + 900)"
    by (rule ends_block_same) simp
  then have "ends_block (insert_timer (now s, AddSubmitting)
          (insert_timer (now s + 900, RemoveSubmitting)
          (insert_timer (now s, AddSubmitting)
          (insert_timer (now s + 900, SubmitDone) (timers s)))))
          ([(now s + 900, SubmitDone)] @ [(now s + 900, RemoveSubmitting)]) (now s + 900)"
    by (rule ends_block_earlier) auto
  then have "ends_block (insert_timer (now s + 900, RemoveSubmitting)
          (insert_timer (now s, AddSubmitting)
          (insert_timer (now s + 900, RemoveSubmitting)
          (insert_timer (now s, AddSubmitting)
          (insert_timer (now s + 900, SubmitDone) (timers s))))))
          (([(now s + 900, SubmitDone)] @ [(now s + 900, RemoveSubmitting)])
             @ [(now s + 900, RemoveSubmitting)]) (now s + 900)"
    by (rule ends_block_same) auto
  then show ?thesis
    by (auto simp: submit_event_valid_gen(1)[OF assms(1,2) 1])
next
  case 2
  have "ends_block (insert_timer (now s + 900, SubmitDone)
          (insert_timer (now s + 900, RemoveSubmitting)
          (insert_timer (now s, AddSubmitting) (timers s))))
          [(now s + 900, SubmitDone)] (now s + 900)"
    by (rule ends_block_insert)
  then have "ends_block (insert_timer (now s, AddSubmitting)
          (insert_timer (now s + 900, SubmitDone)
          (insert_timer (now s + 900, RemoveSubmitting)
          (insert_timer (now s, AddSubmitting) (timers s)))))
          [(now s + 900, SubmitDone)] (now s + 900)"
    by (rule ends_block_earlier) simp_all
  then have "ends_block (insert_timer (now s + 900, RemoveSubmitting)
          (insert_timer (now s, AddSubmitting)
          (insert_timer (now s + 900, SubmitDone)
          (insert_timer (now s + 900, RemoveSubmitting)
          (insert_timer (now s, AddSubmitting) (timers s))))))
          ([(now s + 900, SubmitDone)] @ [(now s + 900, RemoveSubmitting)]) (now s + 900)"
    by (rule ends_block_same) simp
  then show ?thesis
    by (auto simp: submit_event_valid_gen(2)[OF assms(1,2) 2])
next
  case 3
  have "ends_block (insert_timer (now s + 900, SubmitDone) (timers s))
          [(now s + 900, SubmitDone)] (now s + 900)"
    by (rule ends_block_insert)
  then have "ends_block (insert_timer (now s, AddSubmitting)
          (insert_timer (now s + 900, SubmitDone) (timers s)))
          [(now s + 900, SubmitDone)] (now s + 900)"
    by (rule ends_block_earlier) simp_all
  then have "ends_block (insert_timer (now s + 900, RemoveSubmitting)
          (insert_timer (now s, AddSubmitting)
          (insert_timer (now s + 900, SubmitDone) (timers s))))
          ([(now s + 900, SubmitDone)] @ [(now s + 900, RemoveSubmitting)]) (now s + 900)"
    by (rule ends_block_same) simp
  then show ?thesis
    by (auto simp: submit_event_valid_gen(3)[OF assms(1,2) 3])
qed

text \<open>The fields as the completion callback leaves them.\<close>

lemma fire_SubmitDone:
  assumes "timers s = (t, SubmitDone) # R @ B" and "\<forall>x\<in>set R. fst x \<le> t"
    and "B = [] \<or> t < fst (hd B)" and "submitBtn s = Some b0"
  shows "\<exists>s1 B1. run_until t s = run_until t s1 \<and> timers s1 = R @ B1 \<and>
           (B1 = [] \<or> t < fst (hd B1)) \<and>
           submitBtn s1 = Some (b0\<lparr>disabled := False, content := Html submit_markup,
                                   opacity := []\<rparr>) \<and>
           successMsg s1 = map_option (\<lambda>_. False) (successMsg s) \<and>
           (\<forall>k. form_fields s1 k =
              (if k \<in> set rule_keys
               then map_option (\<lambda>f. setFieldError (f\<lparr>el_value := el_default f\<rparr>) (Some []))
                      (form_fields s k)
               else map_option (\<lambda>f. f\<lparr>el_value := el_default f\<rparr>) (form_fields s k)))"
proof -
  let ?s0 = "s\<lparr>timers := R @ B, now := max (now s) t\<rparr>"
  let ?s1 = "run_task SubmitDone ?s0"
  let ?x = "(max (now s) t + 6000, HideSuccess)"
  have fire: "run_until t s = run_until t ?s1"
    using assms(1) by (simp add: run_until_fire del: run_task.simps)
  have b: "submitBtn ?s0 \<noteq> None" using assms(4) by simp
  note ev = run_task_SubmitDone_eval[OF b]
  have R: "\<forall>y\<in>set R. fst y \<le> fst ?x" using assms(2) by auto
  have "timers ?s1 = R @ (if successMsg s = None then B else insert_timer ?x B)"
    using insert_timer_append[OF R, of B] by (simp add: ev del: run_task.simps)
  moreover have "insert_timer ?x B = [] \<or> t < fst (hd (insert_timer ?x B))"
    using insert_timer_hd[OF assms(3), of ?x] by simp
  then have "(if successMsg s = None then B else insert_timer ?x B) = [] \<or>
             t < fst (hd (if successMsg s = None then B else insert_timer ?x B))"
    using assms(3) by simp
  moreover have "submitBtn ?s1 = Some (b0\<lparr>disabled := False, content := Html submit_markup,
                                   opacity := []\<rparr>)"
    using assms(4) by (simp add: ev del: run_task.simps)
  moreover have "successMsg ?s1 = map_option (\<lambda>_. False) (successMsg s)"
    by (simp add: ev del: run_task.simps)
  moreover have "\<forall>k. form_fields ?s1 k =
              (if k \<in> set rule_keys
               then map_option (\<lambda>f. setFieldError (f\<lparr>el_value := el_default f\<rparr>) (Some []))
                      (form_fields s k)
               else map_option (\<lambda>f. f\<lparr>el_value := el_default f\<rparr>) (form_fields s k))"
    by (simp add: ev del: run_task.simps cong: if_cong)
  ultimately show ?thesis using fire by blast
qed

lemma fire_Remove:
  assumes "timers s = (t, RemoveSubmitting) # R @ B"
  shows "\<exists>s1. run_until t s = run_until t s1 \<and> timers s1 = R @ B \<and>
           submitBtn s1 = map_option (\<lambda>b. b\<lparr>submitting := False\<rparr>) (submitBtn s) \<and>
           successMsg s1 = successMsg s \<and> form_fields s1 = form_fields s"
proof -
  let ?s1 = "run_task RemoveSubmitting (s\<lparr>timers := R @ B, now := max (now s) t\<rparr>)"
  have "run_until t s = run_until t ?s1"
    using assms by (simp add: run_until_fire)
  moreover have "timers ?s1 = R @ B" by simp
  ultimately show ?thesis by (intro exI[of _ ?s1]) simp
qed

lemma run_done_block:
  assumes "timers s = (t, SubmitDone) # R @ B"
    and "R = [(t, RemoveSubmitting)] \<or> R = [(t, RemoveSubmitting), (t, RemoveSubmitting)]"
    and "B = [] \<or> t < fst (hd B)" and "submitBtn s = Some b0"
  shows "submitBtn (run_until t s) =
           Some \<lparr>disabled = False, content = Html submit_markup, opacity = [],
                 submitting = False\<rparr>"
    and "successMsg (run_until t s) = map_option (\<lambda>_. False) (successMsg s)"
    and "form_fields (run_until t s) k =
              (if k \<in> set rule_keys
               then map_option (\<lambda>f. setFieldError (f\<lparr>el_value := el_default f\<rparr>) (Some []))
                      (form_fields s k)
               else map_option (\<lambda>f. f\<lparr>el_value := el_default f\<rparr>) (form_fields s k))"
proof -
  have R: "\<forall>x\<in>set R. fst x \<le> t" using assms(2) by auto
  from fire_SubmitDone[OF assms(1) R assms(3,4)] obtain s1 B1 where
    s1: "run_until t s = run_until t s1" "timers s1 = R @ B1" "B1 = [] \<or> t < fst (hd B1)"
      "submitBtn s1 = Some (b0\<lparr>disabled := False, content := Html submit_markup,
                                   opacity := []\<rparr>)"
      "successMsg s1 = map_option (\<lambda>_. False) (successMsg s)"
      "\<forall>k. form_fields s1 k =
              (if k \<in> set rule_keys
               then map_option (\<lambda>f. setFieldError (f\<lparr>el_value := el_default f\<rparr>) (Some []))
                      (form_fields s k)
               else map_option (\<lambda>f. f\<lparr>el_value := el_default f\<rparr>) (form_fields s k))"
    by blast
  have "\<exists>s2. run_until t s1 = run_until t s2 \<and> timers s2 = B1 \<and>
           submitBtn s2 = Some (b0\<lparr>disabled := False, content := Html submit_markup,
                                   opacity := [], submitting := False\<rparr>) \<and>
           successMsg s2 = successMsg s1 \<and> form_fields s2 = form_fields s1"
    using assms(2)
  proof
    assume r: "R = [(t, RemoveSubmitting)]"
    from fire_Remove[of s1 t "[]" B1] s1(2,4) r show ?thesis by auto
  next
    assume r: "R = [(t, RemoveSubmitting), (t, RemoveSubmitting)]"
    from fire_Remove[of s1 t "[(t, RemoveSubmitting)]" B1] s1(2,4) r obtain s2 where
      s2: "run_until t s1 = run_until t s2" "timers s2 = [(t, RemoveSubmitting)] @ B1"
        "submitBtn s2 = Some (b0\<lparr>disabled := False, content := Html submit_markup,
                                   opacity := [], submitting := False\<rparr>)"
        "successMsg s2 = successMsg s1" "form_fields s2 = form_fields s1"
      by auto
    from fire_Remove[of s2 t "[]" B1] s2 show ?thesis by auto
  qed
  then obtain s2 where
    s2: "run_until t s1 = run_until t s2" "timers s2 = B1"
      "submitBtn s2 = Some (b0\<lparr>disabled := False, content := Html submit_markup,
                                   opacity := [], submitting := False\<rparr>)"
      "successMsg s2 = successMsg s1" "form_fields s2 = form_fields s1"
    by blast
  have fin: "run_until t s = s2\<lparr>now := max (now s2) t\<rparr>"
    using s1(1) s2(1) run_until_tail[OF s2(2) s1(3)] by simp
  have rec: "b0\<lparr>disabled := False, content := Html submit_markup,
                                   opacity := [], submitting := False\<rparr>
      = \<lparr>disabled = False, content = Html submit_markup, opacity = [], submitting = False\<rparr>"
    by (cases b0) simp
  show "submitBtn (run_until t s) =
           Some \<lparr>disabled = False, content = Html submit_markup, opacity = [],
                 submitting = False\<rparr>"
    by (simp add: fin s2(3) rec)
  show "successMsg (run_until t s) = map_option (\<lambda>_. False) (successMsg s)"
    by (simp add: fin s2(4) s1(5))
  show "form_fields (run_until t s) k =
              (if k \<in> set rule_keys
               then map_option (\<lambda>f. setFieldError (f\<lparr>el_value := el_default f\<rparr>) (Some []))
                      (form_fields s k)
               else map_option (\<lambda>f. f\<lparr>el_value := el_default f\<rparr>) (form_fields s k))"
    using s1(6) by (simp add: fin s2(5))
qed

section \<open>Timeouts of earlier submissions\<close>

text \<open>An invariant of the callbacks holds when the event loop stops.\<close>

lemma run_until_inv:
  assumes "I s"
    and "\<And>u d x rest. I u \<Longrightarrow> timers u = (d, x) # rest \<Longrightarrow> d \<le> t \<Longrightarrow>
           I (run_task x (u\<lparr>timers := rest, now := max (now u) d\<rparr>))"
  shows "\<exists>s'. I s' \<and> (timers s' = [] \<or> t < fst (hd (timers s'))) \<and>
              run_until t s = s'\<lparr>now := max (now s') t\<rparr>"
  using assms
proof (induction t s rule: run_until.induct)
  case (1 t s)
  show ?case
  proof (cases "timers s")
    case Nil
    with 1(2) show ?thesis by (intro exI[of _ s]) (simp add: run_until_empty)
  next
    case (Cons a rest)
    obtain d x where a: "a = (d, x)" by (cases a)
    show ?thesis
    proof (cases "d \<le> t")
      case True
      let ?s1 = "run_task x (s\<lparr>timers := rest, now := max (now s) d\<rparr>)"
      have ts: "timers s = (d, x) # rest" using Cons a by simp
      have i1: "I ?s1" using 1(3)[OF 1(2) ts True] .
      from 1(1)[OF Cons a[symmetric] True i1 1(3)]
      obtain s' where "I s'" "timers s' = [] \<or> t < fst (hd (timers s'))"
        "run_until t ?s1 = s'\<lparr>now := max (now s') t\<rparr>"
        by blast
      then show ?thesis using run_until_fire[OF ts True] by (intro exI[of _ s']) simp
    next
      case False
      with Cons a 1(2) show ?thesis
        by (intro exI[of _ s]) (simp add: run_until_stop)
    qed
  qed
qed

lemma sorted_insert_timer:
  "sorted (map fst Q) \<Longrightarrow> sorted (map fst (insert_timer x Q))"
  by (induction Q) (auto simp: set_insert_timer)

text \<open>What one callback does to the queue, the notice and the clock.\<close>

lemma run_task_effect:
  assumes "submitBtn u \<noteq> None"
  shows "timers (run_task x (u\<lparr>timers := rest, now := n\<rparr>)) =
           (if x = SubmitDone \<and> successMsg u \<noteq> None
            then insert_timer (n + 6000, HideSuccess) rest else rest)"
    and "successMsg (run_task x (u\<lparr>timers := rest, now := n\<rparr>)) =
           (if x = SubmitDone then map_option (\<lambda>_. False) (successMsg u)
            else if x = HideSuccess then map_option (\<lambda>_. True) (successMsg u)
            else successMsg u)"
    and "submitBtn (run_task x (u\<lparr>timers := rest, now := n\<rparr>)) \<noteq> None"
    and "now (run_task x (u\<lparr>timers := rest, now := n\<rparr>)) = n"
proof -
  have b: "submitBtn (u\<lparr>timers := rest, now := n\<rparr>) \<noteq> None" using assms by simp
  note ev = run_task_SubmitDone_eval[OF b]
  show "timers (run_task x (u\<lparr>timers := rest, now := n\<rparr>)) =
           (if x = SubmitDone \<and> successMsg u \<noteq> None
            then insert_timer (n + 6000, HideSuccess) rest else rest)"
    by (cases x) (simp_all add: ev del: run_task.simps(1))
  show "successMsg (run_task x (u\<lparr>timers := rest, now := n\<rparr>)) =
           (if x = SubmitDone then map_option (\<lambda>_. False) (successMsg u)
            else if x = HideSuccess then map_option (\<lambda>_. True) (successMsg u)
            else successMsg u)"
    by (cases x) (simp_all add: ev del: run_task.simps(1))
  show "submitBtn (run_task x (u\<lparr>timers := rest, now := n\<rparr>)) \<noteq> None"
    using assms by (cases x) (auto simp: ev simp del: run_task.simps(1))
  show "now (run_task x (u\<lparr>timers := rest, now := n\<rparr>)) = n"
    by (cases x) (simp_all add: ev del: run_task.simps(1))
qed

text \<open>
  Once every pending completion is due by \<open>D\<close> and every pending hiding by \<open>D + 6000\<close>, and
  the notice is not visible without one of them pending, the notice is hidden at any time
  from \<open>D + 6000\<close> on.
\<close>

lemma hidden_after:
  assumes "sorted (map fst (timers s))" and "submitBtn s \<noteq> None"
    and "\<forall>(d, x)\<in>set (timers s).
           (x = SubmitDone \<longrightarrow> d \<le> D \<and> now s \<le> D) \<and> (x = HideSuccess \<longrightarrow> d \<le> D + 6000)"
    and "successMsg s = Some False \<longrightarrow>
           (\<exists>d x. (d, x) \<in> set (timers s) \<and> (x = SubmitDone \<or> x = HideSuccess))"
    and "D + 6000 \<le> t"
  shows "successMsg (run_until t s) = map_option (\<lambda>_. True) (successMsg s)"
proof -
  define I where "I = (\<lambda>u::page. sorted (map fst (timers u)) \<and> submitBtn u \<noteq> None \<and>
     (successMsg u = None \<longleftrightarrow> successMsg s = None) \<and>
     (\<forall>(d, x)\<in>set (timers u).
        (x = SubmitDone \<longrightarrow> d \<le> D \<and> now u \<le> D) \<and> (x = HideSuccess \<longrightarrow> d \<le> D + 6000)) \<and>
     (successMsg u = Some False \<longrightarrow>
        (\<exists>d x. (d, x) \<in> set (timers u) \<and> (x = SubmitDone \<or> x = HideSuccess))))"
  have init: "I s" using assms(1-4) by (simp add: I_def)
  have step: "I (run_task x (u\<lparr>timers := rest, now := max (now u) d\<rparr>))"
    if u: "I u" and ts: "timers u = (d, x) # rest" and "d \<le> t" for u d x rest
  proof -
    let ?n = "max (now u) d"
    let ?u' = "run_task x (u\<lparr>timers := rest, now := ?n\<rparr>)"
    from u have b: "submitBtn u \<noteq> None" by (simp add: I_def)
    note ef = run_task_effect[OF b, where x=x and rest=rest and n="?n"]
    from u ts have srt: "sorted (map fst rest)" "\<forall>y\<in>set rest. d \<le> fst y"
      by (auto simp: I_def)
    from u ts have bnd: "\<forall>(e, y)\<in>set rest.
        (y = SubmitDone \<longrightarrow> e \<le> D \<and> now u \<le> D) \<and> (y = HideSuccess \<longrightarrow> e \<le> D + 6000)"
      by (auto simp: I_def)
    from u ts have hd: "(x = SubmitDone \<longrightarrow> d \<le> D \<and> now u \<le> D)"
      by (auto simp: I_def)
    have 1: "sorted (map fst (timers ?u'))"
      using srt(1) by (simp add: ef(1) sorted_insert_timer)
    have 2: "submitBtn ?u' \<noteq> None" by (rule ef(3))
    have 3: "successMsg ?u' = None \<longleftrightarrow> successMsg s = None"
      using u by (simp add: ef(2) I_def)
    have 4: "\<forall>(e, y)\<in>set (timers ?u').
        (y = SubmitDone \<longrightarrow> e \<le> D \<and> now ?u' \<le> D) \<and> (y = HideSuccess \<longrightarrow> e \<le> D + 6000)"
    proof (intro ballI, clarify)
      fix e y
      assume m: "(e, y) \<in> set (timers ?u')"
      show "(y = SubmitDone \<longrightarrow> e \<le> D \<and> now ?u' \<le> D) \<and> (y = HideSuccess \<longrightarrow> e \<le> D + 6000)"
      proof (cases "(e, y) \<in> set rest")
        case True
        with bnd have r: "(y = SubmitDone \<longrightarrow> e \<le> D \<and> now u \<le> D)"
          "(y = HideSuccess \<longrightarrow> e \<le> D + 6000)" by auto
        from True srt(2) have "d \<le> e" by auto
        with r show ?thesis by (auto simp: ef(4))
      next
        case False
        with m have "x = SubmitDone" "(e, y) = (?n + 6000, HideSuccess)"
          by (auto simp: ef(1) set_insert_timer split: if_splits)
        with hd show ?thesis by auto
      qed
    qed
    have 5: "successMsg ?u' = Some False \<longrightarrow>
        (\<exists>e y. (e, y) \<in> set (timers ?u') \<and> (y = SubmitDone \<or> y = HideSuccess))"
      unfolding ef(1) ef(2) using u ts
      by (cases x) (auto simp: set_insert_timer I_def)
    from 1 2 3 4 5 show ?thesis unfolding I_def by blast
  qed
  from run_until_inv[of I, OF init step] obtain s' where
    s': "I s'" "timers s' = [] \<or> t < fst (hd (timers s'))"
      "run_until t s = s'\<lparr>now := max (now s') t\<rparr>"
    by blast
  have none: "\<not> (\<exists>d x. (d, x) \<in> set (timers s') \<and> (x = SubmitDone \<or> x = HideSuccess))"
  proof
    assume "\<exists>d x. (d, x) \<in> set (timers s') \<and> (x = SubmitDone \<or> x = HideSuccess)"
    then obtain d x where m: "(d, x) \<in> set (timers s')" "x = SubmitDone \<or> x = HideSuccess"
      by blast
    with s'(1) have "d \<le> D + 6000" by (auto simp: I_def)
    moreover from m(1) s'(2) have ne: "timers s' \<noteq> []" "t < fst (hd (timers s'))" by auto
    from s'(1) have "sorted (map fst (timers s'))" by (simp add: I_def)
    with ne(1) m(1) have "fst (hd (timers s')) \<le> d"
      by (cases "timers s'") auto
    ultimately show False using ne(2) assms(5) by simp
  qed
  with s'(1) have "successMsg s' \<noteq> Some False" by (auto simp: I_def)
  moreover from s'(1) have "successMsg s' = None \<longleftrightarrow> successMsg s = None" by (simp add: I_def)
  ultimately have "successMsg s' = map_option (\<lambda>_. True) (successMsg s)"
    by (cases "successMsg s'"; cases "successMsg s") auto
  then show ?thesis by (simp add: s'(3))
qed

text \<open>
  While no completion and no hiding is due, the event loop changes nothing but the class
  of the submit control.
\<close>

lemma only_class_timers:
  assumes "\<forall>(d, x)\<in>set (timers s). x = SubmitDone \<or> x = HideSuccess \<longrightarrow> t < d"
  shows "successMsg (run_until t s) = successMsg s"
    and "form_fields (run_until t s) = form_fields s"
    and "map_option (\<lambda>b. (disabled b, content b, opacity b)) (submitBtn (run_until t s))
         = map_option (\<lambda>b. (disabled b, content b, opacity b)) (submitBtn s)"
proof -
  define I where "I = (\<lambda>u::page.
     (\<forall>(d, x)\<in>set (timers u). x = SubmitDone \<or> x = HideSuccess \<longrightarrow> t < d) \<and>
     successMsg u = successMsg s \<and> form_fields u = form_fields s \<and>
     map_option (\<lambda>b. (disabled b, content b, opacity b)) (submitBtn u)
       = map_option (\<lambda>b. (disabled b, content b, opacity b)) (submitBtn s))"
  have init: "I s" using assms by (simp add: I_def)
  have step: "I (run_task x (u\<lparr>timers := rest, now := max (now u) d\<rparr>))"
    if u: "I u" and ts: "timers u = (d, x) # rest" and d: "d \<le> t" for u d x rest
  proof -
    from u ts d have x: "x = AddSubmitting \<or> x = RemoveSubmitting"
      by (cases x) (auto simp: I_def)
    from u ts have r: "\<forall>(e, y)\<in>set rest. y = SubmitDone \<or> y = HideSuccess \<longrightarrow> t < e"
      by (auto simp: I_def)
    from x show ?thesis
    proof
      assume "x = AddSubmitting"
      with u r show ?thesis
        by (cases "submitBtn u") (auto simp: I_def option.map_comp comp_def)
    next
      assume "x = RemoveSubmitting"
      with u r show ?thesis
        by (cases "submitBtn u") (auto simp: I_def option.map_comp comp_def)
    qed
  qed
  from run_until_inv[of I, OF init step] obtain s' where
    s': "I s'" "run_until t s = s'\<lparr>now := max (now s') t\<rparr>"
    by blast
  from s' show "successMsg (run_until t s) = successMsg s"
    and "form_fields (run_until t s) = form_fields s"
    and "map_option (\<lambda>b. (disabled b, content b, opacity b)) (submitBtn (run_until t s))
         = map_option (\<lambda>b. (disabled b, content b, opacity b)) (submitBtn s)"
    by (simp_all add: I_def)
qed

text \<open>
  When a completion is pending and due by \<open>t\<close>, and every hiding that is or will be
  pending is due after \<open>t\<close>, the notice is visible at the time \<open>t\<close>.
\<close>

lemma shown_between:
  assumes "sorted (map fst (timers s))" and "submitBtn s \<noteq> None"
    and "\<forall>(d, x)\<in>set (timers s).
           (x = SubmitDone \<longrightarrow> d \<le> t \<and> t < d + 6000) \<and> (x = HideSuccess \<longrightarrow> t < d)"
    and "\<exists>d. (d, SubmitDone) \<in> set (timers s)"
  shows "successMsg (run_until t s) = map_option (\<lambda>_. False) (successMsg s)"
proof -
  define I where "I = (\<lambda>u::page. sorted (map fst (timers u)) \<and> submitBtn u \<noteq> None \<and>
     (successMsg u = None \<longleftrightarrow> successMsg s = None) \<and>
     (\<forall>(d, x)\<in>set (timers u).
        (x = SubmitDone \<longrightarrow> d \<le> t \<and> t < d + 6000) \<and> (x = HideSuccess \<longrightarrow> t < d)) \<and>
     ((\<exists>d. (d, SubmitDone) \<in> set (timers u)) \<or>
      successMsg u = map_option (\<lambda>_. False) (successMsg s)))"
  have init: "I s" using assms by (simp add: I_def)
  have step: "I (run_task x (u\<lparr>timers := rest, now := max (now u) d\<rparr>))"
    if u: "I u" and ts: "timers u = (d, x) # rest" and d: "d \<le> t" for u d x rest
  proof -
    let ?n = "max (now u) d"
    let ?u' = "run_task x (u\<lparr>timers := rest, now := ?n\<rparr>)"
    from u have b: "submitBtn u \<noteq> None" by (simp add: I_def)
    note ef = run_task_effect[OF b, where x=x and rest=rest and n="?n"]
    from u ts d have xh: "x \<noteq> HideSuccess" by (auto simp: I_def)
    from u ts have srt: "sorted (map fst rest)" by (auto simp: I_def)
    from u ts have bnd: "\<forall>(e, y)\<in>set rest.
        (y = SubmitDone \<longrightarrow> e \<le> t \<and> t < e + 6000) \<and> (y = HideSuccess \<longrightarrow> t < e)"
      by (auto simp: I_def)
    from u ts have hd: "x = SubmitDone \<longrightarrow> t < d + 6000" by (auto simp: I_def)
    have 1: "sorted (map fst (timers ?u'))"
      using srt by (simp add: ef(1) sorted_insert_timer)
    have 2: "submitBtn ?u' \<noteq> None" by (rule ef(3))
    have 3: "successMsg ?u' = None \<longleftrightarrow> successMsg s = None"
      using u by (simp add: ef(2) I_def)
    have 4: "\<forall>(e, y)\<in>set (timers ?u').
        (y = SubmitDone \<longrightarrow> e \<le> t \<and> t < e + 6000) \<and> (y = HideSuccess \<longrightarrow> t < e)"
      unfolding ef(1) using bnd hd by (auto simp: set_insert_timer)
    have 5: "(\<exists>e. (e, SubmitDone) \<in> set (timers ?u')) \<or>
        successMsg ?u' = map_option (\<lambda>_. False) (successMsg s)"
    proof (cases "x = SubmitDone")
      case True
      from u have "successMsg u = None \<longleftrightarrow> successMsg s = None" by (simp add: I_def)
      then have "map_option (\<lambda>_. False) (successMsg u) = map_option (\<lambda>_. False) (successMsg s)"
        by (cases "successMsg u"; cases "successMsg s") auto
      then show ?thesis unfolding ef(2) using True by simp
    next
      case False
      then show ?thesis unfolding ef(1) ef(2) using u ts xh
        by (auto simp: I_def)
    qed
    from 1 2 3 4 5 show ?thesis unfolding I_def by blast
  qed
  from run_until_inv[of I, OF init step] obtain s' where
    s': "I s'" "timers s' = [] \<or> t < fst (hd (timers s'))"
      "run_until t s = s'\<lparr>now := max (now s') t\<rparr>"
    by blast
  have "\<not> (\<exists>d. (d, SubmitDone) \<in> set (timers s'))"
  proof
    assume "\<exists>d. (d, SubmitDone) \<in> set (timers s')"
    then obtain d where m: "(d, SubmitDone) \<in> set (timers s')" by blast
    with s'(1) have "d \<le> t" by (auto simp: I_def)
    moreover from m s'(2) have ne: "timers s' \<noteq> []" "t < fst (hd (timers s'))" by auto
    from s'(1) have "sorted (map fst (timers s'))" by (simp add: I_def)
    with ne(1) m have "fst (hd (timers s')) \<le> d"
      by (cases "timers s'") auto
    ultimately show False using ne(2) by simp
  qed
  with s'(1) have "successMsg s' = map_option (\<lambda>_. False) (successMsg s)"
    by (auto simp: I_def)
  then show ?thesis by (simp add: s'(3))
qed

text \<open>
  A hiding that is pending and due after every pending completion hides the notice for
  good when it fires, whatever was shown in between.
\<close>

lemma hidden_by:
  assumes "sorted (map fst (timers s))" and "submitBtn s \<noteq> None"
    and "\<forall>(d, x)\<in>set (timers s). x = SubmitDone \<longrightarrow> d \<le> D"
    and "(h, HideSuccess) \<in> set (timers s)" and "D < h" and "h \<le> t"
  shows "successMsg (run_until t s) = map_option (\<lambda>_. True) (successMsg s)"
proof -
  define I where "I = (\<lambda>u::page. sorted (map fst (timers u)) \<and> submitBtn u \<noteq> None \<and>
     (successMsg u = None \<longleftrightarrow> successMsg s = None) \<and>
     (\<forall>(d, x)\<in>set (timers u). x = SubmitDone \<longrightarrow> d \<le> D) \<and>
     ((h, HideSuccess) \<in> set (timers u) \<or>
      (\<forall>d. (d, SubmitDone) \<notin> set (timers u)) \<and> successMsg u \<noteq> Some False))"
  have init: "I s" using assms(1-4) by (simp add: I_def)
  have step: "I (run_task x (u\<lparr>timers := rest, now := max (now u) d\<rparr>))"
    if u: "I u" and ts: "timers u = (d, x) # rest" and d: "d \<le> t" for u d x rest
  proof -
    let ?n = "max (now u) d"
    let ?u' = "run_task x (u\<lparr>timers := rest, now := ?n\<rparr>)"
    from u have b: "submitBtn u \<noteq> None" by (simp add: I_def)
    note ef = run_task_effect[OF b, where x=x and rest=rest and n="?n"]
    from u ts have srt: "sorted (map fst rest)" "\<forall>y\<in>set rest. d \<le> fst y"
      by (auto simp: I_def)
    from u ts have bnd: "\<forall>(e, y)\<in>set rest. y = SubmitDone \<longrightarrow> e \<le> D"
      by (auto simp: I_def)
    have 1: "sorted (map fst (timers ?u'))"
      using srt(1) by (simp add: ef(1) sorted_insert_timer)
    have 2: "submitBtn ?u' \<noteq> None" by (rule ef(3))
    have 3: "successMsg ?u' = None \<longleftrightarrow> successMsg s = None"
      using u by (simp add: ef(2) I_def)
    have 4: "\<forall>(e, y)\<in>set (timers ?u'). y = SubmitDone \<longrightarrow> e \<le> D"
      unfolding ef(1) using bnd by (auto simp: set_insert_timer)
    have 5: "(h, HideSuccess) \<in> set (timers ?u') \<or>
      (\<forall>e. (e, SubmitDone) \<notin> set (timers ?u')) \<and> successMsg ?u' \<noteq> Some False"
    proof (cases "(h, HideSuccess) \<in> set rest")
      case True
      then show ?thesis unfolding ef(1) by (simp add: set_insert_timer)
    next
      case False
      show ?thesis
      proof (cases "(h, HideSuccess) \<in> set (timers u)")
        case True
        with False ts have hd: "d = h" "x = HideSuccess" by auto
        have "\<forall>e. (e, SubmitDone) \<notin> set rest"
        proof (intro allI notI)
          fix e assume m: "(e, SubmitDone) \<in> set rest"
          with bnd have "e \<le> D" by auto
          moreover from m srt(2) have "d \<le> e" by auto
          ultimately show False using hd(1) assms(5) by simp
        qed
        then show ?thesis unfolding ef(1) ef(2) using hd(2)
          by (cases "successMsg u") auto
      next
        case F: False
        with u have n: "\<forall>e. (e, SubmitDone) \<notin> set (timers u)" "successMsg u \<noteq> Some False"
          by (auto simp: I_def)
        from n(1) ts have "x \<noteq> SubmitDone" "\<forall>e. (e, SubmitDone) \<notin> set rest" by auto
        then show ?thesis unfolding ef(1) ef(2) using n(2)
          by (cases "successMsg u") auto
      qed
    qed
    from 1 2 3 4 5 show ?thesis unfolding I_def by blast
  qed
  from run_until_inv[of I, OF init step] obtain s' where
    s': "I s'" "timers s' = [] \<or> t < fst (hd (timers s'))"
      "run_until t s = s'\<lparr>now := max (now s') t\<rparr>"
    by blast
  have "(h, HideSuccess) \<notin> set (timers s')"
  proof
    assume m: "(h, HideSuccess) \<in> set (timers s')"
    with s'(2) have ne: "timers s' \<noteq> []" "t < fst (hd (timers s'))" by auto
    from s'(1) have "sorted (map fst (timers s'))" by (simp add: I_def)
    with ne(1) m have "fst (hd (timers s')) \<le> h"
      by (cases "timers s'") auto
    then show False using ne(2) assms(6) by simp
  qed
  with s'(1) have "successMsg s' \<noteq> Some False" by (auto simp: I_def)
  moreover from s'(1) have "successMsg s' = None \<longleftrightarrow> successMsg s = None" by (simp add: I_def)
  ultimately have "successMsg s' = map_option (\<lambda>_. True) (successMsg s)"
    by (cases "successMsg s'"; cases "successMsg s") auto
  then show ?thesis by (simp add: s'(3))
qed

text \<open>The queue after a valid submit.\<close>

lemma submit_event_valid_timers:
  assumes "first_invalid s = None" and "submitBtn s = Some b"
    and "submit_listeners s \<in> set listener_orders"
  shows "set (timers (submit_event s)) =
           set (timers s) \<union> {(now s + 900, SubmitDone), (now s, AddSubmitting),
                               (now s + 900, RemoveSubmitting)}"
    and "sorted (map fst (timers s)) \<Longrightarrow> sorted (map fst (timers (submit_event s)))"
  using assms(3)
  by (cases rule: listener_cases;
      auto simp: submit_event_valid_gen[OF assms(1,2)] set_insert_timer sorted_insert_timer)+

text \<open>
  Every event keeps the queue well timed: a page that starts with no pending timeout is
  well timed at every later moment.
\<close>

lemma well_timed_setTimeout:
  assumes "well_timed s"
  shows "well_timed (setTimeout (delay x) x s)"
proof -
  have "list_all (\<lambda>(d, y). d \<le> n + delay y) (insert_timer (n + delay x, x) Q)"
    if "list_all (\<lambda>(d, y). d \<le> n + delay y) Q" for n Q
    using that by (simp add: list_all_iff set_insert_timer)
  with assms show ?thesis
    by (simp add: well_timed_def setTimeout_def sorted_insert_timer)
qed

lemma well_timed_cong:
  "timers s' = timers s \<Longrightarrow> now s \<le> now s' \<Longrightarrow> well_timed s \<Longrightarrow> well_timed s'"
  by (fastforce simp: well_timed_def list_all_iff)

lemma well_timed_contact_submit:
  assumes "well_timed s"
  shows "well_timed (contact_submit s)"
proof (cases "first_invalid s")
  case (Some k)
  from assms show ?thesis
    by (rule well_timed_cong[rotated 2]) (simp_all add: contact_submit_invalid[OF Some])
next
  case None
  show ?thesis
  proof (cases "submitBtn s")
    case N: None
    then have "contact_submit s = (validated s)\<lparr>prevented := True, uncaught := Suc (uncaught s)\<rparr>"
      using None by (simp add: contact_submit_def validate_all_rule_keys)
    with assms show ?thesis
      by (intro well_timed_cong[OF _ _ assms]) simp_all
  next
    case (Some b)
    have "well_timed ((validated s)\<lparr>prevented := True,
          submitBtn := Some (b\<lparr>disabled := True, content := Text sending_caption,
                                opacity := ascii ''0.7''\<rparr>)\<rparr>)"
      by (rule well_timed_cong[OF _ _ assms]) simp_all
    from well_timed_setTimeout[OF this, of SubmitDone] show ?thesis
      by (simp add: contact_submit_valid[OF None Some])
  qed
qed

lemma well_timed_patch_submit:
  assumes "well_timed s"
  shows "well_timed (patch_submit s)"
proof -
  have "well_timed (setTimeout (delay AddSubmitting) AddSubmitting s)"
    using assms by (rule well_timed_setTimeout)
  then have "well_timed (setTimeout (delay RemoveSubmitting) RemoveSubmitting
      (setTimeout (delay AddSubmitting) AddSubmitting s))"
    by (rule well_timed_setTimeout)
  then show ?thesis by (simp add: patch_submit_def)
qed

lemma well_timed_submit_event:
  assumes "well_timed s"
  shows "well_timed (submit_event s)"
proof -
  have "well_timed (fold run_listener ls u)" if "well_timed u" for ls u
    using that
  proof (induction ls arbitrary: u)
    case Nil
    then show ?case by simp
  next
    case (Cons l ls)
    have "well_timed (run_listener l u)"
      using Cons.prems by (cases l) (simp_all add: well_timed_contact_submit well_timed_patch_submit)
    then show ?case using Cons.IH by simp
  qed
  moreover have "well_timed (s\<lparr>prevented := False\<rparr>)"
    by (rule well_timed_cong[OF _ _ assms]) simp_all
  ultimately show ?thesis by (simp add: submit_event_def)
qed

lemma well_timed_input_event:
  assumes "well_timed s"
  shows "well_timed (input_event k v s)"
  by (rule well_timed_cong[OF _ _ assms])
    (auto simp: input_event_def input_listener_def split: option.splits)

lemma well_timed_blur_event:
  assumes "well_timed s"
  shows "well_timed (blur_event k s)"
  by (rule well_timed_cong[OF _ _ assms])
    (auto simp: blur_event_def blur_listener_def Let_def split: option.splits)

lemma well_timed_run_until:
  assumes "well_timed s"
  shows "well_timed (run_until t s)"
proof -
  have step: "well_timed (run_task x (u\<lparr>timers := rest, now := max (now u) d\<rparr>))"
    if u: "well_timed u" and ts: "timers u = (d, x) # rest" for u d x rest
  proof -
    have w0: "well_timed (u\<lparr>timers := rest, now := max (now u) d\<rparr>)"
      using u ts by (fastforce simp: well_timed_def list_all_iff)
    let ?u' = "run_task x (u\<lparr>timers := rest, now := max (now u) d\<rparr>)"
    show ?thesis
    proof (cases "submitBtn u")
      case None
      have "timers ?u' = rest \<and> now ?u' = max (now u) d"
        using None by (cases x) (simp_all add: form_reset_def Let_def)
      then show ?thesis
        by (intro well_timed_cong[OF _ _ w0]) simp_all
    next
      case (Some b)
      then have b: "submitBtn u \<noteq> None" by simp
      note ef = run_task_effect[OF b, where x=x and rest=rest and n="max (now u) d"]
      show ?thesis
      proof (cases "x = SubmitDone \<and> successMsg u \<noteq> None")
        case True
        have w1: "well_timed (u\<lparr>timers := insert_timer (max (now u) d + 6000, HideSuccess) rest,
                              now := max (now u) d\<rparr>)"
          by (rule well_timed_cong[OF _ _ well_timed_setTimeout[OF w0, of HideSuccess]])
            (simp_all add: setTimeout_def)
        have "timers ?u' = insert_timer (max (now u) d + 6000, HideSuccess) rest"
          unfolding ef(1) using True by simp
        then show ?thesis
          by (intro well_timed_cong[OF _ _ w1]) (simp_all add: ef(4))
      next
        case False
        have "timers ?u' = rest"
          unfolding ef(1) using False by auto
        then show ?thesis
          by (intro well_timed_cong[OF _ _ w0]) (simp_all add: ef(4))
      qed
    qed
  qed
  from run_until_inv[of well_timed, OF assms step] obtain s' where
    "well_timed s'" "run_until t s = s'\<lparr>now := max (now s') t\<rparr>"
    by blast
  then show ?thesis
    by (auto intro: well_timed_cong[of _ s'])
qed

lemma reachable_well_timed: "reachable s \<Longrightarrow> well_timed s"
proof (induction rule: reachable.induct)
  case (start s)
  then show ?case by (simp add: well_timed_def)
qed (simp_all add: well_timed_submit_event well_timed_input_event well_timed_blur_event
    well_timed_run_until)

lemma well_timed_example: "well_timed (example_page n p m)"
  by (simp add: well_timed_def example_page_def)

text \<open>The page of the second submission.\<close>

lemma example_values_valid:
  "validateField formName (ascii ''Ana Anic'') = Some []"
  "validateField formPhone (ascii ''+381 64 123 4567'') = Some []"
  "validateField formMessage (ascii ''Curi slavina u kuhinji.'') = Some []"
  by (simp_all add: validateField_formName validateField_formPhone validateField_formMessage
      trim_examples phone_ok_examples) (simp_all add: ascii_def)

lemma example_first_invalid:
  "first_invalid (example_page (ascii ''Ana Anic'') (ascii ''+381 64 123 4567'')
      (ascii ''Curi slavina u kuhinji.'')) = None"
  by (simp add: first_invalid_def rule_keys_eq example_values_valid)

lemma input_event_other [simp]:
  "timers (input_event k v s) = timers s" "now (input_event k v s) = now s"
  "successMsg (input_event k v s) = successMsg s" "submitBtn (input_event k v s) = submitBtn s"
  "submit_listeners (input_event k v s) = submit_listeners s"
  by (auto simp: input_event_def input_listener_def split: option.splits)

lemma input_event_fields:
  assumes "form_fields s k = Some f" and "\<not> is_invalid f"
  shows "form_fields (input_event k v s) = (form_fields s)(k \<mapsto> f\<lparr>el_value := v\<rparr>)"
  using assms by (simp add: input_event_def input_listener_def)

lemma not_invalid_at:
  "form_fields s k = Some f \<Longrightarrow> validateField k (el_value f) = Some [] \<Longrightarrow> \<not> invalid_at s k"
  by (simp add: invalid_at_def truthy_def)

lemma example_resubmit_facts:
  "timers example_resubmit = [(6900, HideSuccess)]"
  "now example_resubmit = 5000"
  "successMsg example_resubmit = Some False"
  "submitBtn example_resubmit =
     Some \<lparr>disabled = False, content = Html submit_markup, opacity = [], submitting = False\<rparr>"
  "submit_listeners example_resubmit = [ContactSubmit, PatchSubmit, PatchSubmit]"
  "first_invalid example_resubmit = None"
proof -
  let ?s = "example_page (ascii ''Ana Anic'') (ascii ''+381 64 123 4567'')
      (ascii ''Curi slavina u kuhinji.'')"
  let ?R = "run_until 5000 (submit_event ?s)"
  have btn: "submitBtn ?s = Some \<lparr>disabled = False, content = Html submit_markup,
      opacity = [], submitting = False\<rparr>" by simp
  have q: "timers ?s = []" by simp
  note r = valid_phase2[OF example_first_invalid btn q example_orders, of 5000, simplified]
  have R: "timers ?R = [(6900, HideSuccess)]" "now ?R = 5000" "successMsg ?R = Some False"
    "submitBtn ?R = Some \<lparr>disabled = False, content = Html submit_markup, opacity = [],
       submitting = False\<rparr>"
    "submit_listeners ?R = [ContactSubmit, PatchSubmit, PatchSubmit]"
    unfolding r by simp_all
  have f: "\<exists>g. form_fields ?R k = Some g \<and> \<not> is_invalid g"
    if "k = formName \<or> k = formPhone \<or> k = formMessage" for k
    unfolding r using that by (auto simp: validated_fields setFieldError_def truthy_def)
  show "timers example_resubmit = [(6900, HideSuccess)]"
    "now example_resubmit = 5000"
    "successMsg example_resubmit = Some False"
    "submitBtn example_resubmit =
     Some \<lparr>disabled = False, content = Html submit_markup, opacity = [], submitting = False\<rparr>"
    "submit_listeners example_resubmit = [ContactSubmit, PatchSubmit, PatchSubmit]"
    unfolding example_resubmit_def by (simp_all add: R)
  let ?s1 = "input_event formName (ascii ''Ana Anic'') ?R"
  let ?s2 = "input_event formPhone (ascii ''+381 64 123 4567'') ?s1"
  let ?s3 = "input_event formMessage (ascii ''Curi slavina u kuhinji.'') ?s2"
  from f[of formName] obtain g1 where g1: "form_fields ?R formName = Some g1" "\<not> is_invalid g1"
    by auto
  from f[of formPhone] obtain g2 where g2: "form_fields ?R formPhone = Some g2" "\<not> is_invalid g2"
    by auto
  from f[of formMessage] obtain g3 where
    g3: "form_fields ?R formMessage = Some g3" "\<not> is_invalid g3"
    by auto
  have 1: "form_fields ?s1 = (form_fields ?R)(formName \<mapsto> g1\<lparr>el_value := ascii ''Ana Anic''\<rparr>)"
    by (rule input_event_fields[OF g1])
  have "form_fields ?s1 formPhone = Some g2" by (simp add: 1 g2 ids_distinct)
  from input_event_fields[OF this g2(2)]
  have 2: "form_fields ?s2 =
      (form_fields ?s1)(formPhone \<mapsto> g2\<lparr>el_value := ascii ''+381 64 123 4567''\<rparr>)" .
  have "form_fields ?s2 formMessage = Some g3" by (simp add: 2 1 g3 ids_distinct)
  from input_event_fields[OF this g3(2)]
  have 3: "form_fields ?s3 =
      (form_fields ?s2)(formMessage \<mapsto> g3\<lparr>el_value := ascii ''Curi slavina u kuhinji.''\<rparr>)" .
  have v: "form_fields ?s3 formName = Some (g1\<lparr>el_value := ascii ''Ana Anic''\<rparr>)"
    "form_fields ?s3 formPhone = Some (g2\<lparr>el_value := ascii ''+381 64 123 4567''\<rparr>)"
    "form_fields ?s3 formMessage = Some (g3\<lparr>el_value := ascii ''Curi slavina u kuhinji.''\<rparr>)"
    by (simp_all add: 3 2 1 ids_distinct)
  have "\<not> invalid_at ?s3 formName" "\<not> invalid_at ?s3 formPhone" "\<not> invalid_at ?s3 formMessage"
    by (rule not_invalid_at[OF v(1)], simp add: example_values_valid,
        rule not_invalid_at[OF v(2)], simp add: example_values_valid,
        rule not_invalid_at[OF v(3)], simp add: example_values_valid)
  then show "first_invalid example_resubmit = None"
    unfolding example_resubmit_def first_invalid_def rule_keys_eq by simp
qed

text \<open>The notice and the control after a valid submit, with timeouts pending.\<close>

lemma submit_valid_timeline:
  assumes "first_invalid s = None" and "submitBtn s = Some b"
    and "submit_listeners s \<in> set listener_orders"
  shows "quiet s \<Longrightarrow> t < now s + 900 \<Longrightarrow>
           \<exists>b'. submitBtn (run_until t (submit_event s)) = Some b' \<and> disabled b' \<and>
                content b' = Text sending_caption \<and> opacity b' = ascii ''0.7''"
    and "quiet s \<Longrightarrow> well_timed s \<Longrightarrow> now s + 900 \<le> t \<Longrightarrow> t < now s + 6900 \<Longrightarrow>
           successMsg (run_until t (submit_event s)) = map_option (\<lambda>_. False) (successMsg s)"
    and "well_timed s \<Longrightarrow> now s + 6900 \<le> t \<Longrightarrow>
           successMsg (run_until t (submit_event s)) = map_option (\<lambda>_. True) (successMsg s)"
    and "well_timed s \<Longrightarrow> (h, HideSuccess) \<in> set (timers s) \<Longrightarrow> now s + 900 < h \<Longrightarrow> h \<le> t \<Longrightarrow>
           successMsg (run_until t (submit_event s)) = map_option (\<lambda>_. True) (successMsg s)"
proof -
  let ?S = "submit_event s"
  note tm = submit_event_valid_timers[OF assms]
  have btn: "submitBtn ?S =
      Some (b\<lparr>disabled := True, content := Text sending_caption, opacity := ascii ''0.7''\<rparr>)"
    and msg: "successMsg ?S = successMsg s" and nw: "now ?S = now s"
    using assms(3)
    by (cases rule: listener_cases; simp add: submit_event_valid_gen[OF assms(1,2)])+
  have b: "submitBtn ?S \<noteq> None" by (simp add: btn)
  show "\<exists>b'. submitBtn (run_until t ?S) = Some b' \<and> disabled b' \<and>
                content b' = Text sending_caption \<and> opacity b' = ascii ''0.7''"
    if q: "quiet s" and t: "t < now s + 900"
  proof -
    have "\<forall>(d, x)\<in>set (timers ?S). x = SubmitDone \<or> x = HideSuccess \<longrightarrow> t < d"
      using q t by (auto simp: tm(1) quiet_def list_all_iff)
    from only_class_timers(3)[OF this] show ?thesis
      by (cases "submitBtn (run_until t ?S)") (auto simp: btn)
  qed
  show "successMsg (run_until t ?S) = map_option (\<lambda>_. False) (successMsg s)"
    if q: "quiet s" and w: "well_timed s" and t: "now s + 900 \<le> t" "t < now s + 6900"
  proof -
    have srt: "sorted (map fst (timers ?S))" using w by (simp add: tm(2) well_timed_def)
    have bd: "\<forall>(d, x)\<in>set (timers ?S).
           (x = SubmitDone \<longrightarrow> d \<le> t \<and> t < d + 6000) \<and> (x = HideSuccess \<longrightarrow> t < d)"
      using q t by (auto simp: tm(1) quiet_def list_all_iff)
    have ex: "\<exists>d. (d, SubmitDone) \<in> set (timers ?S)" by (auto simp: tm(1))
    from shown_between[OF srt b bd ex] show ?thesis by (simp add: msg)
  qed
  show "successMsg (run_until t ?S) = map_option (\<lambda>_. True) (successMsg s)"
    if w: "well_timed s" and t: "now s + 6900 \<le> t"
  proof -
    have srt: "sorted (map fst (timers ?S))" using w by (simp add: tm(2) well_timed_def)
    have bd: "\<forall>(d, x)\<in>set (timers ?S).
           (x = SubmitDone \<longrightarrow> d \<le> now s + 900 \<and> now ?S \<le> now s + 900) \<and>
           (x = HideSuccess \<longrightarrow> d \<le> now s + 900 + 6000)"
      using w by (fastforce simp: tm(1) nw well_timed_def list_all_iff)
    have vis: "successMsg ?S = Some False \<longrightarrow>
           (\<exists>d x. (d, x) \<in> set (timers ?S) \<and> (x = SubmitDone \<or> x = HideSuccess))"
      by (auto simp: tm(1))
    have "now s + 900 + 6000 \<le> t" using t by simp
    from hidden_after[OF srt b bd vis this] show ?thesis by (simp add: msg)
  qed
  show "successMsg (run_until t ?S) = map_option (\<lambda>_. True) (successMsg s)"
    if w: "well_timed s" and h: "(h, HideSuccess) \<in> set (timers s)" "now s + 900 < h" "h \<le> t"
  proof -
    have srt: "sorted (map fst (timers ?S))" using w by (simp add: tm(2) well_timed_def)
    have bd: "\<forall>(d, x)\<in>set (timers ?S). x = SubmitDone \<longrightarrow> d \<le> now s + 900"
      using w by (fastforce simp: tm(1) well_timed_def list_all_iff)
    have m: "(h, HideSuccess) \<in> set (timers ?S)" using h(1) by (simp add: tm(1))
    from hidden_by[OF srt b bd m h(2,3)] show ?thesis by (simp add: msg)
  qed
qed

lemma reachable_example_resubmit: "reachable example_resubmit"
  unfolding example_resubmit_def
  by (intro reachable.input reachable.wait reachable.submit reachable.start)
    (simp add: example_page_def)

lemma well_timed_example_resubmit: "well_timed example_resubmit"
  by (rule reachable_well_timed[OF reachable_example_resubmit])

lemma submit_event_valid_now:
  assumes "first_invalid s = None" and "submitBtn s = Some b"
    and "submit_listeners s \<in> set listener_orders"
  shows "prevented (submit_event s)"
    and "submitBtn (submit_event s) =
           Some (b\<lparr>disabled := True, content := Text sending_caption, opacity := ascii ''0.7''\<rparr>)"
    and "form_fields (submit_event s) = form_fields (validated s)"
    and "successMsg (submit_event s) = successMsg s"
    and "now (submit_event s) = now s"
  using assms(3)
  by (cases rule: listener_cases; simp add: submit_event_valid_gen[OF assms(1,2)])+

lemma quiet_example: "quiet (example_page n p m)"
  by (simp add: quiet_def example_page_def)

lemma resubmit_shown:
  assumes "5900 \<le> t" and "t < 6900"
  shows "successMsg (run_until t (submit_event example_resubmit)) = Some False"
proof -
  let ?S = "submit_event example_resubmit"
  note f = example_resubmit_facts
  have o: "submit_listeners example_resubmit \<in> set listener_orders"
    by (simp add: f(5) listener_orders_def)
  note tm = submit_event_valid_timers[OF f(6) f(4) o]
  note ev = submit_event_valid_now[OF f(6) f(4) o]
  have srt: "sorted (map fst (timers ?S))" by (rule tm(2)) (simp add: f(1))
  have b: "submitBtn ?S \<noteq> None" by (simp add: ev(2))
  have bd: "\<forall>(d, x)\<in>set (timers ?S).
           (x = SubmitDone \<longrightarrow> d \<le> t \<and> t < d + 6000) \<and> (x = HideSuccess \<longrightarrow> t < d)"
    using assms by (auto simp: tm(1) f(1,2))
  have ex: "\<exists>d. (d, SubmitDone) \<in> set (timers ?S)" by (auto simp: tm(1))
  from shown_between[OF srt b bd ex] show ?thesis by (simp add: ev(4) f(3))
qed

lemma resubmit_hidden:
  assumes "6900 \<le> t"
  shows "successMsg (run_until t (submit_event example_resubmit)) = Some True"
proof -
  note f = example_resubmit_facts
  have o: "submit_listeners example_resubmit \<in> set listener_orders"
    by (simp add: f(5) listener_orders_def)
  have m: "(6900, HideSuccess) \<in> set (timers example_resubmit)" by (simp add: f(1))
  have l: "now example_resubmit + 900 < 6900" by (simp add: f(2))
  from submit_valid_timeline(4)[OF f(6) f(4) o well_timed_example_resubmit m l assms]
  show ?thesis by (simp add: f(3))
qed

text \<open>
  Claim C2, as stated: the notice of a valid submission is hidden 6000 ms after it is
  shown. The form of the example page is submitted at the time 0 and, filled in again, at
  the time 5000. The notice of the second submission is shown at 5900; the timeout of the
  first submission, which nothing cancels, hides it at 6900, after 1000 ms.
\<close>

theorem submit_valid_early_hide_counterexample:
  "first_invalid example_resubmit = None \<and>
   now example_resubmit = 5000 \<and>
   successMsg (run_until 5900 (submit_event example_resubmit)) = Some False \<and>
   successMsg (run_until 6899 (submit_event example_resubmit)) = Some False \<and>
   successMsg (run_until 6900 (submit_event example_resubmit)) = Some True"
  by (simp add: example_resubmit_facts resubmit_shown resubmit_hidden)

text \<open>
  Claim C2, amended. When every tracked field is valid, a submit prevents the default
  action, disables the submit control and gives it the sending caption, leaving the entered
  values in place. When the timeouts due 900 ms later have run, the control is enabled
  again and shows the default markup with caption and icon (the markup that the handler
  hard-codes; the page itself is not part of the sources), every field of the form is back
  at its default value (empty, for inputs that the page declares without a value), no
  tracked field is marked invalid, its \<open>aria-invalid\<close> is \<open>false\<close> and its error text is empty,
  and the success notice is visible. This holds whatever timeouts were pending.

  The timeouts of earlier submissions are never cancelled. On a quiet page (no completion
  and no hiding pending) the control stays disabled with the sending caption during the
  900 ms, and the notice stays visible for 6000 ms. On every well-timed page, which
  every reachable page is, the notice is hidden from 6000 ms after the completion on, as
  long as no further event arrives; it is hidden earlier, and for good, when a hiding of
  an earlier submission is pending and due after the completion.
\<close>

theorem submit_valid:
  assumes "first_invalid s = None" and "submitBtn s = Some b"
    and "submit_listeners s \<in> set listener_orders"
  shows
    "prevented (submit_event s) \<and>
     submitBtn (submit_event s) =
       Some (b\<lparr>disabled := True, content := Text sending_caption, opacity := ascii ''0.7''\<rparr>) \<and>
     (\<forall>j f. form_fields s j = Some f \<longrightarrow>
        (\<exists>f'. form_fields (submit_event s) j = Some f' \<and> el_value f' = el_value f)) \<and>
     submitBtn (run_until (now s + 900) (submit_event s)) =
       Some \<lparr>disabled = False, content = Html submit_markup, opacity = [], submitting = False\<rparr> \<and>
     (\<forall>j f. form_fields s j = Some f \<longrightarrow>
        (\<exists>f'. form_fields (run_until (now s + 900) (submit_event s)) j = Some f' \<and>
              el_value f' = el_default f \<and>
              (j \<in> set rule_keys \<longrightarrow>
                 \<not> is_invalid f' \<and> aria_invalid f' = Some (ascii ''false'') \<and>
                 error_text f' = map_option (\<lambda>_. []) (error_text f)))) \<and>
     (successMsg s \<noteq> None \<longrightarrow>
        successMsg (run_until (now s + 900) (submit_event s)) = Some False) \<and>
     (quiet s \<longrightarrow>
        (\<forall>t. t < now s + 900 \<longrightarrow>
           (\<exists>b'. submitBtn (run_until t (submit_event s)) = Some b' \<and> disabled b' \<and>
                 content b' = Text sending_caption \<and> opacity b' = ascii ''0.7''))) \<and>
     (quiet s \<and> well_timed s \<longrightarrow>
        (\<forall>t. now s + 900 \<le> t \<and> t < now s + 6900 \<longrightarrow>
           successMsg (run_until t (submit_event s)) = map_option (\<lambda>_. False) (successMsg s))) \<and>
     (well_timed s \<longrightarrow>
        (\<forall>t. now s + 6900 \<le> t \<longrightarrow>
           successMsg (run_until t (submit_event s)) = map_option (\<lambda>_. True) (successMsg s)) \<and>
        (\<forall>h t. (h, HideSuccess) \<in> set (timers s) \<and> now s + 900 < h \<and> h \<le> t \<longrightarrow>
           successMsg (run_until t (submit_event s)) = map_option (\<lambda>_. True) (successMsg s)))"
proof -
  let ?S = "submit_event s"
  let ?t = "now s + 900"
  note ev = submit_event_valid_now[OF assms]
  have c: "\<forall>j f. form_fields s j = Some f \<longrightarrow>
        (\<exists>f'. form_fields ?S j = Some f' \<and> el_value f' = el_value f)"
    by (simp add: ev(3) validated_fields)
  from submit_valid_block[OF assms] obtain R where
    R: "R = [(?t, RemoveSubmitting)] \<or> R = [(?t, RemoveSubmitting), (?t, RemoveSubmitting)]"
    and blk: "ends_block (timers ?S) ((?t, SubmitDone) # R) ?t"
    by blast
  have due: "\<forall>x\<in>set ((?t, SubmitDone) # R). fst x \<le> ?t" using R by auto
  have "?t < now ?S + 6000" by (simp add: ev(5))
  from run_to_block[OF blk due this] obtain s' B' where
    s': "run_until ?t ?S = run_until ?t s'" "timers s' = ((?t, SubmitDone) # R) @ B'"
      "B' = [] \<or> ?t < fst (hd B')" "same_shape ?S s'"
    by blast
  from s'(4) ev(2) obtain b0 where b0: "submitBtn s' = Some b0"
    by (auto simp: same_shape_def)
  have tm: "timers s' = (?t, SubmitDone) # R @ B'" using s'(2) by simp
  note fin = run_done_block[OF tm R s'(3) b0]
  have d: "submitBtn (run_until ?t ?S) =
       Some \<lparr>disabled = False, content = Html submit_markup, opacity = [], submitting = False\<rparr>"
    by (simp only: s'(1) fin(1))
  have e: "\<forall>j f. form_fields s j = Some f \<longrightarrow>
        (\<exists>f'. form_fields (run_until ?t ?S) j = Some f' \<and>
              el_value f' = el_default f \<and>
              (j \<in> set rule_keys \<longrightarrow>
                 \<not> is_invalid f' \<and> aria_invalid f' = Some (ascii ''false'') \<and>
                 error_text f' = map_option (\<lambda>_. []) (error_text f)))"
  proof (intro allI impI)
    fix j f
    assume f: "form_fields s j = Some f"
    have "\<exists>g. form_fields ?S j = Some g \<and> el_default g = el_default f \<and>
      (error_text g = None \<longleftrightarrow> error_text f = None)"
      using f by (cases "j \<in> set rule_keys") (simp_all add: ev(3) validated_fields marked_def)
    then obtain g where gg: "form_fields ?S j = Some g \<and> el_default g = el_default f \<and>
      (error_text g = None \<longleftrightarrow> error_text f = None)" ..
    then have g: "form_fields ?S j = Some g" "el_default g = el_default f"
      "error_text g = None \<longleftrightarrow> error_text f = None"
      by simp_all
    from s'(4) have "rel_option (\<lambda>f f'. el_default f' = el_default f \<and>
                              (error_text f' = None \<longleftrightarrow> error_text f = None))
            (form_fields ?S j) (form_fields s' j)"
      by (simp add: same_shape_def)
    with g have "\<exists>h. form_fields s' j = Some h \<and> el_default h = el_default f \<and>
      (error_text h = None \<longleftrightarrow> error_text f = None)"
      by (cases "form_fields s' j") simp_all
    then obtain h where hh: "form_fields s' j = Some h \<and> el_default h = el_default f \<and>
      (error_text h = None \<longleftrightarrow> error_text f = None)" ..
    then have h: "form_fields s' j = Some h" "el_default h = el_default f"
      "error_text h = None \<longleftrightarrow> error_text f = None"
      by simp_all
    have "map_option (\<lambda>_. []::jsstring) (error_text h) = map_option (\<lambda>_. []) (error_text f)"
      using h(3) by (cases "error_text h"; cases "error_text f") auto
    then show "\<exists>f'. form_fields (run_until ?t ?S) j = Some f' \<and>
              el_value f' = el_default f \<and>
              (j \<in> set rule_keys \<longrightarrow>
                 \<not> is_invalid f' \<and> aria_invalid f' = Some (ascii ''false'') \<and>
                 error_text f' = map_option (\<lambda>_. []) (error_text f))"
      using h(1,2) by (simp add: s'(1) fin(3) setFieldError_aria setFieldError_text)
  qed
  have g: "successMsg s \<noteq> None \<longrightarrow> successMsg (run_until ?t ?S) = Some False"
  proof
    assume "successMsg s \<noteq> None"
    then have "successMsg s' \<noteq> None" using s'(4) by (auto simp: same_shape_def ev(4))
    then show "successMsg (run_until ?t ?S) = Some False"
      by (auto simp: s'(1) fin(2))
  qed
  note tl = submit_valid_timeline[OF assms]
  have q1: "quiet s \<longrightarrow>
        (\<forall>t. t < now s + 900 \<longrightarrow>
           (\<exists>b'. submitBtn (run_until t ?S) = Some b' \<and> disabled b' \<and>
                 content b' = Text sending_caption \<and> opacity b' = ascii ''0.7''))"
    using tl(1) by blast
  have q2: "quiet s \<and> well_timed s \<longrightarrow>
        (\<forall>t. now s + 900 \<le> t \<and> t < now s + 6900 \<longrightarrow>
           successMsg (run_until t ?S) = map_option (\<lambda>_. False) (successMsg s))"
    using tl(2) by blast
  have q3: "well_timed s \<longrightarrow>
        (\<forall>t. now s + 6900 \<le> t \<longrightarrow>
           successMsg (run_until t ?S) = map_option (\<lambda>_. True) (successMsg s)) \<and>
        (\<forall>h t. (h, HideSuccess) \<in> set (timers s) \<and> now s + 900 < h \<and> h \<le> t \<longrightarrow>
           successMsg (run_until t ?S) = map_option (\<lambda>_. True) (successMsg s))"
    using tl(3,4) by blast
  show ?thesis
    by (intro conjI) (rule ev(1), rule ev(2), rule c, rule d, rule e, rule g, rule q1, rule q2,
        rule q3)
qed

theorem submit_valid_witness:
  "first_invalid (example_page (ascii ''Ana Anic'') (ascii ''+381 64 123 4567'')
      (ascii ''Curi slavina u kuhinji.'')) = None \<and>
   submitBtn (example_page (ascii ''Ana Anic'') (ascii ''+381 64 123 4567'')
      (ascii ''Curi slavina u kuhinji.''))
     = Some \<lparr>disabled = False, content = Html submit_markup, opacity = [], submitting = False\<rparr> \<and>
   submit_listeners (example_page (ascii ''Ana Anic'') (ascii ''+381 64 123 4567'')
      (ascii ''Curi slavina u kuhinji.'')) \<in> set listener_orders \<and>
   quiet (example_page (ascii ''Ana Anic'') (ascii ''+381 64 123 4567'')
      (ascii ''Curi slavina u kuhinji.'')) \<and>
   well_timed (example_page (ascii ''Ana Anic'') (ascii ''+381 64 123 4567'')
      (ascii ''Curi slavina u kuhinji.'')) \<and>
   form_fields (example_page (ascii ''Ana Anic'') (ascii ''+381 64 123 4567'')
      (ascii ''Curi slavina u kuhinji.'')) formPhone
     = Some (example_field (ascii ''+381 64 123 4567'')) \<and>
   formPhone \<in> set rule_keys \<and>
   (\<exists>b'. submitBtn (run_until 450 (submit_event (example_page (ascii ''Ana Anic'')
      (ascii ''+381 64 123 4567'') (ascii ''Curi slavina u kuhinji.'')))) = Some b' \<and>
      disabled b' \<and> content b' = Text sending_caption \<and> opacity b' = ascii ''0.7'') \<and>
   submitBtn (run_until 900 (submit_event (example_page (ascii ''Ana Anic'')
      (ascii ''+381 64 123 4567'') (ascii ''Curi slavina u kuhinji.''))))
     = Some \<lparr>disabled = False, content = Html submit_markup, opacity = [], submitting = False\<rparr> \<and>
   (\<exists>f'. form_fields (run_until 900 (submit_event (example_page (ascii ''Ana Anic'')
      (ascii ''+381 64 123 4567'') (ascii ''Curi slavina u kuhinji.'')))) formPhone = Some f' \<and>
      el_value f' = [] \<and> \<not> is_invalid f' \<and> aria_invalid f' = Some (ascii ''false'') \<and>
      error_text f' = Some []) \<and>
   successMsg (run_until 900 (submit_event (example_page (ascii ''Ana Anic'')
      (ascii ''+381 64 123 4567'') (ascii ''Curi slavina u kuhinji.'')))) = Some False \<and>
   successMsg (run_until 6899 (submit_event (example_page (ascii ''Ana Anic'')
      (ascii ''+381 64 123 4567'') (ascii ''Curi slavina u kuhinji.'')))) = Some False \<and>
   successMsg (run_until 6900 (submit_event (example_page (ascii ''Ana Anic'')
      (ascii ''+381 64 123 4567'') (ascii ''Curi slavina u kuhinji.'')))) = Some True \<and>
   first_invalid example_resubmit = None \<and>
   well_timed example_resubmit \<and>
   \<not> quiet example_resubmit \<and>
   (6900, HideSuccess) \<in> set (timers example_resubmit) \<and>
   now example_resubmit = 5000 \<and>
   successMsg (run_until 5900 (submit_event example_resubmit)) = Some False \<and>
   successMsg (run_until 6900 (submit_event example_resubmit)) = Some True \<and>
   successMsg (run_until 11900 (submit_event example_resubmit)) = Some True"
proof -
  let ?s = "example_page (ascii ''Ana Anic'') (ascii ''+381 64 123 4567'')
      (ascii ''Curi slavina u kuhinji.'')"
  note fi = example_first_invalid
  have btn: "submitBtn ?s = Some \<lparr>disabled = False, content = Html submit_markup,
      opacity = [], submitting = False\<rparr>" by simp
  have q: "quiet ?s" by (rule quiet_example)
  have w: "well_timed ?s" by (rule well_timed_example)
  have n: "now ?s = 0" by simp
  have f: "form_fields ?s formPhone = Some (example_field (ascii ''+381 64 123 4567''))" by simp
  note th = submit_valid[OF fi btn example_orders]
  from th q n have 1: "\<exists>b'. submitBtn (run_until 450 (submit_event ?s)) = Some b' \<and>
      disabled b' \<and> content b' = Text sending_caption \<and> opacity b' = ascii ''0.7''"
    by simp
  from th n have 2: "submitBtn (run_until 900 (submit_event ?s))
     = Some \<lparr>disabled = False, content = Html submit_markup, opacity = [], submitting = False\<rparr>"
    by simp
  from th n f have "\<exists>f'. form_fields (run_until 900 (submit_event ?s)) formPhone = Some f' \<and>
              el_value f' = el_default (example_field (ascii ''+381 64 123 4567'')) \<and>
              (formPhone \<in> set rule_keys \<longrightarrow>
                 \<not> is_invalid f' \<and> aria_invalid f' = Some (ascii ''false'') \<and>
                 error_text f' = map_option (\<lambda>_. [])
                   (error_text (example_field (ascii ''+381 64 123 4567''))))"
    by (metis add_0)
  then have 3: "\<exists>f'. form_fields (run_until 900 (submit_event ?s)) formPhone = Some f' \<and>
      el_value f' = [] \<and> \<not> is_invalid f' \<and> aria_invalid f' = Some (ascii ''false'') \<and>
      error_text f' = Some []"
    by (auto simp: example_field_def)
  from th n have 4: "successMsg (run_until 900 (submit_event ?s)) = Some False" by simp
  from th q w n have 5: "successMsg (run_until 6899 (submit_event ?s)) = Some False" by simp
  from th w n have 6: "successMsg (run_until 6900 (submit_event ?s)) = Some True" by simp
  note r = example_resubmit_facts
  have ro: "submit_listeners example_resubmit \<in> set listener_orders"
    by (simp add: r(5) listener_orders_def)
  note wr = well_timed_example_resubmit
  have nq: "\<not> quiet example_resubmit" by (simp add: quiet_def r(1))
  have m: "(6900, HideSuccess) \<in> set (timers example_resubmit)" by (simp add: r(1))
  note th2 = submit_valid[OF r(6) r(4) ro]
  from th2 have 7: "successMsg (run_until 5900 (submit_event example_resubmit)) = Some False"
    by (simp add: r(2,3))
  from th2 wr have "\<forall>h t. (h, HideSuccess) \<in> set (timers example_resubmit) \<and>
        now example_resubmit + 900 < h \<and> h \<le> t \<longrightarrow>
        successMsg (run_until t (submit_event example_resubmit))
          = map_option (\<lambda>_. True) (successMsg example_resubmit)"
    by simp
  from this[rule_format, of 6900 6900] m
  have 8: "successMsg (run_until 6900 (submit_event example_resubmit)) = Some True"
    by (simp add: r(2,3))
  from th2 wr have 9: "successMsg (run_until 11900 (submit_event example_resubmit)) = Some True"
    by (simp add: r(2,3))
  from fi btn q w f 1 2 3 4 5 6 r(6) wr nq m r(2) 7 8 9 show ?thesis
    by (simp add: listener_orders_def)
qed

section \<open>Facts about the reveal controllers\<close>

lemma els_upd_el_nth:
  "els (upd_el i f v) ! t = (if t = i \<and> i < length (els v) then f (els v ! i) else els v ! t)"
  by (cases "i < length (els v)") (auto simp: upd_el_def list_update_beyond)

lemma upd_el_other [simp]:
  "observers (upd_el i f v) = observers v" "thrown (upd_el i f v) = thrown v"
  "length (els (upd_el i f v)) = length (els v)"
  "has_IO (upd_el i f v) = has_IO v" "reduced_motion (upd_el i f v) = reduced_motion v"
  "wide (upd_el i f v) = wide v" "sticky_hero (upd_el i f v) = sticky_hero v"
  by (simp_all add: upd_el_def)

lemma unobserve_other [simp]:
  "els (unobserve i t v) = els v" "thrown (unobserve i t v) = thrown v"
  "length (observers (unobserve i t v)) = length (observers v)"
  by (simp_all add: unobserve_def)

lemma unobserve_act [simp]:
  "act (observers (unobserve i t v) ! j) = act (observers v ! j)"
  by (cases "j = i"; cases "i < length (observers v)")
    (simp_all add: unobserve_def list_update_beyond)

lemma unobserve_targets:
  "set (targets (observers (unobserve i t v) ! j)) =
     (if j = i \<and> i < length (observers v) then set (targets (observers v ! j)) - {t}
      else set (targets (observers v ! j)))"
  by (cases "i < length (observers v)") (auto simp: unobserve_def list_update_beyond)

lemma revealed_upd_visible:
  "revealed a t v \<Longrightarrow> revealed a t (upd_el j (\<lambda>e. e\<lparr>is_visible := True\<rparr>) v)"
  by (cases a) (auto simp: revealed_def els_upd_el_nth split: option.splits)

lemma revealed_upd_style:
  "revealed a t v \<Longrightarrow>
   revealed a t (upd_el j (\<lambda>x. x\<lparr>style_opacity := ascii ''1'',
                                   style_transform := ascii ''translateY(0)''\<rparr>) v)"
  by (cases a) (auto simp: revealed_def els_upd_el_nth split: option.splits)

lemma revealed_upd_connector:
  "revealed a t v \<Longrightarrow> revealed a t (upd_el j (\<lambda>x. x\<lparr>is_connector_visible := True\<rparr>) v)"
  by (cases a) (auto simp: revealed_def els_upd_el_nth split: option.splits)

lemma revealed_cong: "els v' = els v \<Longrightarrow> revealed a t v' = revealed a t v"
  by (cases a) (simp_all add: revealed_def cong: option.case_cong)

lemma revealed_unobserve [simp]: "revealed a t (unobserve i u v) = revealed a t v"
  by (rule revealed_cong) simp

lemma revealed_thrown [simp]: "revealed a t (v\<lparr>thrown := b\<rparr>) = revealed a t v"
  by (rule revealed_cong) simp

lemma on_entry_keeps:
  "revealed a t v \<Longrightarrow> revealed a t (on_entry i a' e v)"
  by (cases a')
    (auto simp: on_entry_def add_visible_def revealed_upd_visible revealed_upd_style
      revealed_upd_connector split: option.splits)

lemma fold_on_entry_keeps:
  "revealed a t v \<Longrightarrow> revealed a t (fold (on_entry i a') es v)"
  by (induction es arbitrary: v) (auto simp: on_entry_keeps)

lemma callback_keeps:
  "revealed a t v \<Longrightarrow> revealed a t (callback i es v)"
  by (auto simp: callback_def Let_def on_entry_keeps fold_on_entry_keeps
      split: action.splits list.splits)

lemma deliver_keeps:
  "revealed a t v \<Longrightarrow> revealed a t (deliver i es v)"
  by (simp add: deliver_def callback_keeps)

lemma on_entry_shape [simp]:
  "length (observers (on_entry i a e v)) = length (observers v)"
  "length (els (on_entry i a e v)) = length (els v)"
  "act (observers (on_entry i a e v) ! j) = act (observers v ! j)"
  by (cases a; auto simp: on_entry_def add_visible_def split: option.splits)+

lemma on_entry_targets:
  "set (targets (observers (on_entry i a e v) ! j)) \<subseteq> set (targets (observers v ! j))"
  by (cases a) (auto simp: on_entry_def add_visible_def unobserve_targets split: option.splits if_splits)

lemma fold_on_entry_shape [simp]:
  "length (observers (fold (on_entry i a) es v)) = length (observers v)"
  "length (els (fold (on_entry i a) es v)) = length (els v)"
  "act (observers (fold (on_entry i a) es v) ! j) = act (observers v ! j)"
  by (induction es arbitrary: v) simp_all

lemma fold_on_entry_targets:
  "set (targets (observers (fold (on_entry i a) es v) ! j)) \<subseteq> set (targets (observers v ! j))"
proof (induction es arbitrary: v)
  case Nil
  then show ?case by simp
next
  case (Cons e es)
  have "set (targets (observers (fold (on_entry i a) es (on_entry i a e v)) ! j))
          \<subseteq> set (targets (observers (on_entry i a e v) ! j))"
    by (rule Cons.IH)
  also have "\<dots> \<subseteq> set (targets (observers v ! j))" by (rule on_entry_targets)
  finally show ?case by simp
qed

lemma callback_targets:
  "set (targets (observers (callback i es v) ! j)) \<subseteq> set (targets (observers v ! j))"
proof (cases "i \<ge> length (observers v)")
  case True
  then show ?thesis by (simp add: callback_def)
next
  case False
  have 0: "observers (v\<lparr>thrown := False\<rparr>) = observers v" by simp
  show ?thesis
    using False on_entry_targets[of i _ _ "v\<lparr>thrown := False\<rparr>" j]
      fold_on_entry_targets[of i _ _ "v\<lparr>thrown := False\<rparr>" j]
    by (auto simp: callback_def Let_def split: action.splits list.splits)
qed

lemma deliver_targets:
  "set (targets (observers (deliver i es v) ! j)) \<subseteq> set (targets (observers v ! j))"
  using callback_targets by (simp add: deliver_def)

lemma deliveries_hd: "\<exists>vs. deliveries ds v = v # vs"
  by (cases ds) simp_all

lemma deliveries_keep:
  "revealed a t v \<Longrightarrow> w \<in> set (deliveries ds v) \<Longrightarrow> revealed a t w"
proof (induction ds arbitrary: v)
  case Nil
  then show ?case by simp
next
  case (Cons d ds)
  from Cons.prems(2) have "w = v \<or> w \<in> set (deliveries ds (deliver (fst d) (snd d) v))"
    by simp
  then show ?case
  proof
    assume "w = v"
    with Cons.prems(1) show ?thesis by simp
  next
    assume "w \<in> set (deliveries ds (deliver (fst d) (snd d) v))"
    with Cons.IH[OF deliver_keeps[OF Cons.prems(1)]] show ?thesis by blast
  qed
qed

lemma deliveries_targets:
  "w \<in> set (deliveries ds v) \<Longrightarrow>
   set (targets (observers w ! j)) \<subseteq> set (targets (observers v ! j))"
proof (induction ds arbitrary: v)
  case Nil
  then show ?case by simp
next
  case (Cons d ds)
  from Cons.prems have "w = v \<or> w \<in> set (deliveries ds (deliver (fst d) (snd d) v))"
    by simp
  then show ?case
  proof
    assume "w = v"
    then show ?thesis by simp
  next
    assume "w \<in> set (deliveries ds (deliver (fst d) (snd d) v))"
    from Cons.IH[OF this] deliver_targets[of "fst d" "snd d" v j] show ?thesis by blast
  qed
qed

lemma reveals_revealed:
  "revealed a t v \<Longrightarrow> reveals a t (deliveries ds v) = 0"
proof (induction ds arbitrary: v)
  case Nil
  then show ?case by simp
next
  case (Cons d ds)
  let ?v1 = "deliver (fst d) (snd d) v"
  obtain vs where vs: "deliveries ds ?v1 = ?v1 # vs" using deliveries_hd by blast
  have "reveals a t (deliveries ds ?v1) = 0"
    using Cons.IH[OF deliver_keeps[OF Cons.prems]] .
  then show ?case using Cons.prems vs by simp
qed

lemma reveals_le_1: "reveals a t (deliveries ds v) \<le> 1"
proof (induction ds arbitrary: v)
  case Nil
  then show ?case by simp
next
  case (Cons d ds)
  let ?v1 = "deliver (fst d) (snd d) v"
  obtain vs where vs: "deliveries ds ?v1 = ?v1 # vs" using deliveries_hd by blast
  show ?case
  proof (cases "revealed a t ?v1")
    case True
    from reveals_revealed[OF True, of ds] show ?thesis using vs by simp
  next
    case False
    with Cons.IH[of ?v1] show ?thesis using vs by simp
  qed
qed

lemma on_entry_closest [simp]:
  "closest_step (els (on_entry i a e v) ! u) = closest_step (els v ! u)"
  by (cases a)
    (auto simp: on_entry_def add_visible_def els_upd_el_nth split: option.splits)

lemma steps_around_on_entry [simp]:
  "steps_around es (on_entry i a e v) = steps_around es v"
  by (simp add: steps_around_def cong: option.case_cong)

lemma on_entry_reveals:
  assumes "\<not> thrown v" and "i < length (observers v)" and "t < length (els v)"
    and "a = MarkVisible \<or> a = StyleReveal \<or> a = MarkConnector \<and> steps_around [(t, True)] v"
  shows "revealed a t (on_entry i a (t, True) v) \<and>
         t \<notin> set (targets (observers (on_entry i a (t, True) v) ! i)) \<and>
         \<not> thrown (on_entry i a (t, True) v)"
  using assms
  by (auto simp: on_entry_def add_visible_def revealed_def els_upd_el_nth unobserve_targets
      steps_around_def split: option.splits if_splits)

lemma on_entry_no_throw:
  assumes "\<not> thrown v"
    and "a = MarkVisible \<or> a = StyleReveal \<or> a = MarkConnector \<and> steps_around [e] v"
  shows "\<not> thrown (on_entry i a e v)"
  using assms
  by (auto simp: on_entry_def add_visible_def steps_around_def split: option.splits)

lemma fold_on_entry_reveals:
  assumes "(t, True) \<in> set es" and "\<not> thrown v" and "i < length (observers v)"
    and "\<forall>e\<in>set es. fst e < length (els v)"
    and "a = MarkVisible \<or> a = StyleReveal \<or> a = MarkConnector \<and> steps_around es v"
  shows "revealed a t (fold (on_entry i a) es v) \<and>
         t \<notin> set (targets (observers (fold (on_entry i a) es v) ! i))"
  using assms
proof (induction es arbitrary: v)
  case Nil
  then show ?case by simp
next
  case (Cons e es)
  let ?v1 = "on_entry i a e v"
  have a1: "a = MarkVisible \<or> a = StyleReveal \<or> a = MarkConnector \<and> steps_around [e] v"
    using Cons.prems(5) by (auto simp: steps_around_def)
  have a2: "a = MarkVisible \<or> a = StyleReveal \<or> a = MarkConnector \<and> steps_around es ?v1"
    using Cons.prems(5) by (auto simp: steps_around_def cong: option.case_cong)
  have nt: "\<not> thrown ?v1" using on_entry_no_throw[OF Cons.prems(2) a1] .
  have len: "i < length (observers ?v1)" "\<forall>e\<in>set es. fst e < length (els ?v1)"
    using Cons.prems(3,4) by simp_all
  show ?case
  proof (cases "(t, True) \<in> set es")
    case True
    from Cons.IH[OF True nt len a2] show ?thesis by simp
  next
    case False
    with Cons.prems(1) have e: "e = (t, True)" by simp
    have t: "t < length (els v)" using Cons.prems(4) e by auto
    from on_entry_reveals[OF Cons.prems(2,3) t] a1 e
    have r: "revealed a t ?v1" "t \<notin> set (targets (observers ?v1 ! i))" by simp_all
    have "revealed a t (fold (on_entry i a) es ?v1)"
      using r(1) by (rule fold_on_entry_keeps)
    moreover have "t \<notin> set (targets (observers (fold (on_entry i a) es ?v1) ! i))"
      using r(2) fold_on_entry_targets[of i a es ?v1 i] by blast
    ultimately show ?thesis by simp
  qed
qed

lemma reported_set:
  "e \<in> set (reported i es v) \<Longrightarrow> fst e < length (els v) \<and> fst e \<in> set (targets (observers v ! i))"
  by (simp add: reported_def)

lemma deliver_reveals:
  assumes "i < length (observers v)" and "act (observers v ! i) = a"
    and "a = MarkVisible \<or> a = StyleReveal \<or>
         a = MarkConnector \<and> steps_around (reported i es v) v"
    and "(t, True) \<in> set (reported i es v)"
  shows "revealed a t (deliver i es v) \<and> t \<notin> set (targets (observers (deliver i es v) ! i))"
proof -
  let ?v0 = "v\<lparr>thrown := False\<rparr>"
  have c: "callback i (reported i es v) v = fold (on_entry i a) (reported i es v) ?v0"
    using assms(1,2,3) by (auto simp: callback_def Let_def)
  have s: "steps_around (reported i es v) ?v0 = steps_around (reported i es v) v"
    by (simp add: steps_around_def cong: option.case_cong)
  have "revealed a t (fold (on_entry i a) (reported i es v) ?v0) \<and>
        t \<notin> set (targets (observers (fold (on_entry i a) (reported i es v) ?v0) ! i))"
    using assms s reported_set[of _ i es v]
    by (intro fold_on_entry_reveals) auto
  then show ?thesis using assms(1) by (simp add: deliver_def c)
qed

lemma deliver_list_reveals:
  assumes "i < length (observers v)" and "act (observers v ! i) = MarkList l"
    and "reported i es v = (l, True) # r"
  shows "revealed (MarkList l) t (deliver i es v) \<and>
         l \<notin> set (targets (observers (deliver i es v) ! i))"
proof -
  have "(l, True) \<in> set (reported i es v)" using assms(3) by simp
  from reported_set[OF this] have l: "l < length (els v)" by simp
  show ?thesis
    using assms l
    by (simp add: deliver_def callback_def on_entry_def add_visible_def revealed_def
        els_upd_el_nth unobserve_targets)
qed

text \<open>
  Claim C7. In every run of observer callbacks an element that is revealed stays
  revealed, so it passes from pending to revealed at most once, and the set of observed
  targets of an observer never grows. When a callback handles an intersecting entry, the
  target is revealed (the class is added, or the revealed styles are set) and is removed
  from the observer, and both stay so in every later state. For the connector observer
  this needs a process step around each reported target; the list observer looks at the
  first reported entry only.
\<close>

theorem reveal_once:
  "(revealed a t v \<longrightarrow> (\<forall>w\<in>set (deliveries ds v). revealed a t w)) \<and>
   reveals a t (deliveries ds v) \<le> 1 \<and>
   (\<forall>w\<in>set (deliveries ds v). \<forall>j.
      set (targets (observers w ! j)) \<subseteq> set (targets (observers v ! j))) \<and>
   (i < length (observers v) \<and> act (observers v ! i) = a \<and>
    (a = MarkVisible \<or> a = StyleReveal \<or>
     a = MarkConnector \<and> steps_around (reported i es v) v) \<and>
    (t, True) \<in> set (reported i es v) \<longrightarrow>
      (\<forall>w\<in>set (deliveries ds (deliver i es v)).
         revealed a t w \<and> t \<notin> set (targets (observers w ! i)))) \<and>
   (i < length (observers v) \<and> act (observers v ! i) = MarkList l \<and>
    (\<exists>r. reported i es v = (l, True) # r) \<longrightarrow>
      (\<forall>w\<in>set (deliveries ds (deliver i es v)).
         is_visible (els w ! l) \<and> l \<notin> set (targets (observers w ! i))))"
proof -
  have 1: "revealed a t v \<longrightarrow> (\<forall>w\<in>set (deliveries ds v). revealed a t w)"
    using deliveries_keep by blast
  have 2: "reveals a t (deliveries ds v) \<le> 1" by (rule reveals_le_1)
  have 3: "\<forall>w\<in>set (deliveries ds v). \<forall>j.
      set (targets (observers w ! j)) \<subseteq> set (targets (observers v ! j))"
    using deliveries_targets by blast
  have 4: "i < length (observers v) \<and> act (observers v ! i) = a \<and>
    (a = MarkVisible \<or> a = StyleReveal \<or>
     a = MarkConnector \<and> steps_around (reported i es v) v) \<and>
    (t, True) \<in> set (reported i es v) \<longrightarrow>
      (\<forall>w\<in>set (deliveries ds (deliver i es v)).
         revealed a t w \<and> t \<notin> set (targets (observers w ! i)))"
  proof (intro impI ballI)
    fix w
    assume h: "i < length (observers v) \<and> act (observers v ! i) = a \<and>
      (a = MarkVisible \<or> a = StyleReveal \<or>
       a = MarkConnector \<and> steps_around (reported i es v) v) \<and>
      (t, True) \<in> set (reported i es v)"
      and w: "w \<in> set (deliveries ds (deliver i es v))"
    from h deliver_reveals[of i v a es t]
    have r: "revealed a t (deliver i es v)"
      "t \<notin> set (targets (observers (deliver i es v) ! i))" by simp_all
    from deliveries_keep[OF r(1) w] deliveries_targets[OF w, of i] r(2)
    show "revealed a t w \<and> t \<notin> set (targets (observers w ! i))" by blast
  qed
  have 5: "i < length (observers v) \<and> act (observers v ! i) = MarkList l \<and>
    (\<exists>r. reported i es v = (l, True) # r) \<longrightarrow>
      (\<forall>w\<in>set (deliveries ds (deliver i es v)).
         is_visible (els w ! l) \<and> l \<notin> set (targets (observers w ! i)))"
  proof (intro impI ballI)
    fix w
    assume h: "i < length (observers v) \<and> act (observers v ! i) = MarkList l \<and>
      (\<exists>r. reported i es v = (l, True) # r)"
      and w: "w \<in> set (deliveries ds (deliver i es v))"
    then obtain r where "reported i es v = (l, True) # r" by blast
    from deliver_list_reveals[OF _ _ this, of l] h
    have r: "revealed (MarkList l) l (deliver i es v)"
      "l \<notin> set (targets (observers (deliver i es v) ! i))" by simp_all
    from deliveries_keep[OF r(1) w] deliveries_targets[OF w, of i] r(2)
    show "is_visible (els w ! l) \<and> l \<notin> set (targets (observers w ! i))"
      by (auto simp: revealed_def)
  qed
  show ?thesis by (intro conjI) (rule 1, rule 2, rule 3, rule 4, rule 5)
qed

lemma example_scroll_view:
  "initScrollAnimations (example_view [example_elem [FadeUp], example_elem [WhyCard]] True False)
     = \<lparr>els = [example_elem [FadeUp], example_elem [WhyCard]],
        observers = [\<lparr>act = MarkVisible, targets = [0, 1]\<rparr>],
        has_IO = True, reduced_motion = False, wide = True, sticky_hero = False,
        thrown = False\<rparr>"
  by (simp add: initScrollAnimations_def example_view_def example_elem_def qsa_def observe_def
      Let_def upt_rec_numeral)

lemma example_list_view:
  "initAreaListReveal (example_view [example_elem [AreaList]] True False)
     = \<lparr>els = [example_elem [AreaList]],
        observers = [\<lparr>act = MarkList 0, targets = [0]\<rparr>],
        has_IO = True, reduced_motion = False, wide = True, sticky_hero = False,
        thrown = False\<rparr>"
  by (simp add: initAreaListReveal_def example_view_def example_elem_def qsa_def observe_def)

theorem reveal_once_witness:
  "0 < length (observers (initScrollAnimations
       (example_view [example_elem [FadeUp], example_elem [WhyCard]] True False))) \<and>
   act (observers (initScrollAnimations
       (example_view [example_elem [FadeUp], example_elem [WhyCard]] True False)) ! 0)
     = MarkVisible \<and>
   (0, True) \<in> set (reported 0 [(0, True)] (initScrollAnimations
       (example_view [example_elem [FadeUp], example_elem [WhyCard]] True False))) \<and>
   \<not> revealed MarkVisible 0 (initScrollAnimations
       (example_view [example_elem [FadeUp], example_elem [WhyCard]] True False)) \<and>
   revealed MarkVisible 0
     (deliver 0 [(0, True)] (deliver 0 [(0, False), (1, True)] (deliver 0 [(0, True)]
       (initScrollAnimations
         (example_view [example_elem [FadeUp], example_elem [WhyCard]] True False))))) \<and>
   0 \<notin> set (targets (observers
     (deliver 0 [(0, True)] (deliver 0 [(0, False), (1, True)] (deliver 0 [(0, True)]
       (initScrollAnimations
         (example_view [example_elem [FadeUp], example_elem [WhyCard]] True False))))) ! 0)) \<and>
   reveals MarkVisible 0 (deliveries [(0, [(0, False)]), (0, [(0, True)]), (0, [(0, False)])]
       (initScrollAnimations
         (example_view [example_elem [FadeUp], example_elem [WhyCard]] True False))) = 1 \<and>
   act (observers (initAreaListReveal (example_view [example_elem [AreaList]] True False)) ! 0)
     = MarkList 0 \<and>
   reported 0 [(0, True)] (initAreaListReveal (example_view [example_elem [AreaList]] True False))
     = [(0, True)] \<and>
   is_visible (els (deliver 0 [(0, False)] (deliver 0 [(0, True)]
       (initAreaListReveal (example_view [example_elem [AreaList]] True False)))) ! 0) \<and>
   0 \<notin> set (targets (observers (deliver 0 [(0, False)] (deliver 0 [(0, True)]
       (initAreaListReveal (example_view [example_elem [AreaList]] True False)))) ! 0))"
proof -
  let ?v = "initScrollAnimations
       (example_view [example_elem [FadeUp], example_elem [WhyCard]] True False)"
  let ?u = "initAreaListReveal (example_view [example_elem [AreaList]] True False)"
  have a: "0 < length (observers ?v)" "act (observers ?v ! 0) = MarkVisible"
    "(0, True) \<in> set (reported 0 [(0, True)] ?v)"
    by (simp_all add: example_scroll_view reported_def)
  have a4: "\<not> revealed MarkVisible 0 ?v"
    unfolding example_scroll_view by (simp add: revealed_def example_elem_def)
  have b: "0 < length (observers ?u)" "act (observers ?u ! 0) = MarkList 0"
    "reported 0 [(0, True)] ?u = [(0, True)]"
    by (simp_all add: example_list_view reported_def)
  have c: "reveals MarkVisible 0
      (deliveries [(0, [(0, False)]), (0, [(0, True)]), (0, [(0, False)])] ?v) = 1"
    unfolding example_scroll_view
    by (simp add: deliver_def reported_def callback_def on_entry_def
        add_visible_def upd_el_def unobserve_def revealed_def example_elem_def)
  from reveal_once[of MarkVisible 0 ?v "[(0, [(0, False), (1, True)]), (0, [(0, True)])]" 0
      "[(0, True)]" 0] a
  have "\<forall>w\<in>set (deliveries [(0, [(0, False), (1, True)]), (0, [(0, True)])]
       (deliver 0 [(0, True)] ?v)).
      revealed MarkVisible 0 w \<and> 0 \<notin> set (targets (observers w ! 0))"
    by blast
  then have d: "revealed MarkVisible 0
     (deliver 0 [(0, True)] (deliver 0 [(0, False), (1, True)] (deliver 0 [(0, True)] ?v)))"
    "0 \<notin> set (targets (observers
     (deliver 0 [(0, True)] (deliver 0 [(0, False), (1, True)] (deliver 0 [(0, True)] ?v))) ! 0))"
    by simp_all
  from reveal_once[of MarkVisible 0 ?u "[(0, [(0, False)])]" 0 "[(0, True)]" 0] b
  have "\<forall>w\<in>set (deliveries [(0, [(0, False)])] (deliver 0 [(0, True)] ?u)).
      is_visible (els w ! 0) \<and> 0 \<notin> set (targets (observers w ! 0))"
    by blast
  then have e: "is_visible (els (deliver 0 [(0, False)] (deliver 0 [(0, True)] ?u)) ! 0)"
    "0 \<notin> set (targets (observers (deliver 0 [(0, False)] (deliver 0 [(0, True)] ?u)) ! 0))"
    by simp_all
  show ?thesis
    by (intro conjI) (rule a(1), rule a(2), rule a(3), rule a4, rule d(1), rule d(2), rule c,
        rule b(2), rule b(3), rule e(1), rule e(2))
qed

section \<open>The fallbacks of the reveal controllers\<close>

lemma no_IO_example:
  "script_reveal loading early
     (example_view [example_elem [SectionHeader], example_elem [FadeUp]] False False)
   = \<lparr>els = [example_elem [SectionHeader], (example_elem [FadeUp])\<lparr>is_visible := True\<rparr>],
      observers = [], has_IO = False, reduced_motion = False, wide = True,
      sticky_hero = False, thrown = False\<rparr>"
  by (simp add: script_reveal_def onReady_reveal_def last_lines_reveal_def and_then_def
      initStickyCta_def initScrollAnimations_def initProcessReveal_def
      initServiceCardReveal_def initTestimonialReveal_def staggered_reveal_def
      initSectionHeaderReveal_def initTestimonialSlide_def class_reveal_def
      initConnectorDraw_def initAreaListReveal_def example_view_def example_elem_def
      qsa_def add_visible_def upd_el_def Let_def upt_rec_numeral)

lemma reduced_motion_example:
  "script_reveal loading early (example_view [example_elem [AreaList]] True True)
   = example_view [example_elem [AreaList]] True True"
  by (simp add: script_reveal_def onReady_reveal_def last_lines_reveal_def and_then_def
      initStickyCta_def force_show_def example_view_def example_elem_def
      qsa_def Let_def)

lemma sticky_example:
  "script_reveal False early
     ((example_view [example_elem [FadeUp]] False False)\<lparr>sticky_hero := True\<rparr>)
   = (example_view [example_elem [FadeUp]] False False)\<lparr>sticky_hero := True, thrown := True\<rparr>"
  by (simp add: script_reveal_def onReady_reveal_def and_then_def initStickyCta_def
      example_view_def)

text \<open>
  Claim C8 on two documents. Without \<open>IntersectionObserver\<close> (and without a preference for
  reduced motion) the script shows the fade-up element at once but leaves the section
  header without \<open>is-visible\<close>; with reduced motion requested it leaves the area list without
  \<open>is-visible\<close>. In both documents an element of a reveal controller is not in its revealed
  state after the script has run. On a third document, which has \<open>#stickyCta\<close> and \<open>#hero\<close>,
  the missing \<open>IntersectionObserver\<close> makes \<open>initStickyCta\<close> throw, and the ready handler
  ends before the fallback of \<open>initScrollAnimations\<close> is reached.
\<close>

theorem fallback_incomplete:
  "\<not> has_IO (example_view [example_elem [SectionHeader], example_elem [FadeUp]] False False) \<and>
   is_visible (els (script_reveal False False
      (example_view [example_elem [SectionHeader], example_elem [FadeUp]] False False)) ! 1) \<and>
   \<not> is_visible (els (script_reveal False False
      (example_view [example_elem [SectionHeader], example_elem [FadeUp]] False False)) ! 0) \<and>
   \<not> all_shown (script_reveal False False
      (example_view [example_elem [SectionHeader], example_elem [FadeUp]] False False)) \<and>
   reduced_motion (example_view [example_elem [AreaList]] True True) \<and>
   \<not> is_visible (els (script_reveal False False
      (example_view [example_elem [AreaList]] True True)) ! 0) \<and>
   \<not> all_shown (script_reveal False False (example_view [example_elem [AreaList]] True True)) \<and>
   thrown (script_reveal False False
      ((example_view [example_elem [FadeUp]] False False)\<lparr>sticky_hero := True\<rparr>)) \<and>
   \<not> is_visible (els (script_reveal False False
      ((example_view [example_elem [FadeUp]] False False)\<lparr>sticky_hero := True\<rparr>)) ! 0)"
proof -
  have 1: "\<not> has_IO (example_view [example_elem [SectionHeader], example_elem [FadeUp]] False False)"
    "reduced_motion (example_view [example_elem [AreaList]] True True)"
    by (simp_all add: example_view_def)
  have 2: "is_visible (els (script_reveal False False
      (example_view [example_elem [SectionHeader], example_elem [FadeUp]] False False)) ! 1)"
    "\<not> is_visible (els (script_reveal False False
      (example_view [example_elem [SectionHeader], example_elem [FadeUp]] False False)) ! 0)"
    unfolding no_IO_example by (simp_all add: example_elem_def)
  have 3: "\<not> all_shown (script_reveal False False
      (example_view [example_elem [SectionHeader], example_elem [FadeUp]] False False))"
    unfolding no_IO_example
    by (simp add: all_shown_def managed_def qsa_def shown_def revealed_def example_elem_def
        upt_rec_numeral)
  have 4: "\<not> is_visible (els (script_reveal False False
      (example_view [example_elem [AreaList]] True True)) ! 0)"
    unfolding reduced_motion_example by (simp add: example_view_def example_elem_def)
  have 5: "\<not> all_shown (script_reveal False False (example_view [example_elem [AreaList]] True True))"
    unfolding reduced_motion_example
    by (simp add: all_shown_def managed_def qsa_def shown_def revealed_def example_view_def
        example_elem_def)
  have 6: "thrown (script_reveal False False
      ((example_view [example_elem [FadeUp]] False False)\<lparr>sticky_hero := True\<rparr>))"
    "\<not> is_visible (els (script_reveal False False
      ((example_view [example_elem [FadeUp]] False False)\<lparr>sticky_hero := True\<rparr>)) ! 0)"
    unfolding sticky_example by (simp_all add: example_view_def example_elem_def)
  show ?thesis
    by (intro conjI) (rule 1(1), rule 2(1), rule 2(2), rule 3, rule 1(2), rule 4, rule 5,
        rule 6(1), rule 6(2))
qed

section \<open>What the fallbacks do cover\<close>

lemma fold_add_visible_other [simp]:
  "thrown (fold add_visible xs v) = thrown v"
  "observers (fold add_visible xs v) = observers v"
  "length (els (fold add_visible xs v)) = length (els v)"
  "reduced_motion (fold add_visible xs v) = reduced_motion v"
  "has_IO (fold add_visible xs v) = has_IO v"
  "wide (fold add_visible xs v) = wide v"
  by (induction xs arbitrary: v) (simp_all add: add_visible_def)

lemma fold_show_now_other [simp]:
  "thrown (fold show_now xs v) = thrown v"
  "observers (fold show_now xs v) = observers v"
  "length (els (fold show_now xs v)) = length (els v)"
  "reduced_motion (fold show_now xs v) = reduced_motion v"
  by (induction xs arbitrary: v) (simp_all add: show_now_def)

lemma fold_add_visible_nth:
  "els (fold add_visible xs v) ! t =
     (if t \<in> set xs \<and> t < length (els v) then (els v ! t)\<lparr>is_visible := True\<rparr> else els v ! t)"
  by (induction xs arbitrary: v) (auto simp: add_visible_def els_upd_el_nth)

lemma fold_show_now_nth:
  "els (fold show_now xs v) ! t =
     (if t \<in> set xs \<and> t < length (els v)
      then (els v ! t)\<lparr>style_opacity := ascii ''1'', style_transform := ascii ''none'',
                        is_visible := True\<rparr>
      else els v ! t)"
  by (induction xs arbitrary: v) (auto simp: show_now_def els_upd_el_nth)

lemma mem_qsa: "t \<in> set (qsa c v) \<longleftrightarrow> t < length (els v) \<and> c \<in> set (matches (els v ! t))"
  by (auto simp: qsa_def)

lemma force_show_nth:
  assumes "t < length (els v)"
  shows "els (force_show v) ! t =
     (if \<exists>c\<in>set [FadeUp, WhyCard, ServiceCard, ProcessStep, TestimonialCard].
            c \<in> set (matches (els v ! t))
      then (els v ! t)\<lparr>style_opacity := ascii ''1'', style_transform := ascii ''none'',
                        is_visible := True\<rparr>
      else if SectionHeader \<in> set (matches (els v ! t))
      then (els v ! t)\<lparr>is_visible := True\<rparr>
      else els v ! t)"
  using assms
  by (auto simp: force_show_def Let_def fold_add_visible_nth fold_show_now_nth mem_qsa)

lemma force_show_other [simp]:
  "thrown (force_show v) = thrown v"
  "reduced_motion (force_show v) = reduced_motion v"
  "observers (force_show v) = observers v"
  by (simp_all add: force_show_def Let_def)

text \<open>
  With reduced motion requested (and the ready handler not ended by \<open>initStickyCta\<close>), the
  script shows at once every element that matches one of the five selectors of the
  reduced-motion branch, adds \<open>is-visible\<close> to every section header, changes no other
  element and creates no observer.
\<close>

lemma reduced_motion_fallback:
  assumes "reduced_motion v" and "has_IO v \<or> \<not> sticky_hero v" and "\<not> thrown v"
    and "t < length (els v)"
  shows "els (script_reveal loading early v) ! t =
     (if \<exists>c\<in>set [FadeUp, WhyCard, ServiceCard, ProcessStep, TestimonialCard].
            c \<in> set (matches (els v ! t))
      then (els v ! t)\<lparr>style_opacity := ascii ''1'', style_transform := ascii ''none'',
                        is_visible := True\<rparr>
      else if SectionHeader \<in> set (matches (els v ! t))
      then (els v ! t)\<lparr>is_visible := True\<rparr>
      else els v ! t)"
    and "observers (script_reveal loading early v) = observers v"
proof -
  have s: "initStickyCta v = v"
    using assms(2) by (auto simp: initStickyCta_def)
  have t: "v\<lparr>thrown := False\<rparr> = v"
    using assms(3) by simp
  have "script_reveal loading early v = force_show v"
    using assms(1,3) s
    by (simp add: script_reveal_def onReady_reveal_def last_lines_reveal_def and_then_def
        Let_def t)
  then show "els (script_reveal loading early v) ! t =
     (if \<exists>c\<in>set [FadeUp, WhyCard, ServiceCard, ProcessStep, TestimonialCard].
            c \<in> set (matches (els v ! t))
      then (els v ! t)\<lparr>style_opacity := ascii ''1'', style_transform := ascii ''none'',
                        is_visible := True\<rparr>
      else if SectionHeader \<in> set (matches (els v ! t))
      then (els v ! t)\<lparr>is_visible := True\<rparr>
      else els v ! t)"
    and "observers (script_reveal loading early v) = observers v"
    using assms(4) by (simp_all add: force_show_nth)
qed

text \<open>
  Without \<open>IntersectionObserver\<close> (no reduced motion, no \<open>#stickyCta\<close> with \<open>#hero\<close>), the script
  adds \<open>is-visible\<close> to the fade-up elements and the why-cards and changes nothing else.
\<close>

lemma no_IO_fallback:
  assumes "\<not> has_IO v" and "\<not> reduced_motion v" and "\<not> sticky_hero v" and "\<not> thrown v"
  shows "els (script_reveal loading early v) ! t =
     (if t < length (els v) \<and>
         (FadeUp \<in> set (matches (els v ! t)) \<or> WhyCard \<in> set (matches (els v ! t)))
      then (els v ! t)\<lparr>is_visible := True\<rparr>
      else els v ! t)"
proof -
  have st: "\<And>c g tr u. \<not> has_IO u \<Longrightarrow> staggered_reveal c g tr u = u"
    by (simp add: staggered_reveal_def Let_def)
  have cl: "\<And>c u. \<not> has_IO u \<Longrightarrow> class_reveal c u = u"
    by (simp add: class_reveal_def Let_def)
  have co: "\<And>u. \<not> has_IO u \<Longrightarrow> initConnectorDraw u = u"
    by (simp add: initConnectorDraw_def Let_def)
  have ar: "\<And>u. \<not> has_IO u \<Longrightarrow> initAreaListReveal u = u"
    by (simp add: initAreaListReveal_def split: list.splits)
  have sc: "\<And>u. \<not> has_IO u \<Longrightarrow>
      initScrollAnimations u = fold add_visible (qsa FadeUp u @ qsa WhyCard u) u"
    by (simp add: initScrollAnimations_def Let_def)
  have ll: "\<And>u. \<not> has_IO u \<Longrightarrow> last_lines_reveal u = u"
    by (simp add: last_lines_reveal_def and_then_def Let_def initSectionHeaderReveal_def
        initTestimonialSlide_def cl co ar)
  have on: "onReady_reveal v = fold add_visible (qsa FadeUp v @ qsa WhyCard v) v"
    using assms
    by (simp add: onReady_reveal_def and_then_def Let_def initStickyCta_def sc
        initProcessReveal_def initServiceCardReveal_def initTestimonialReveal_def st
        initSectionHeaderReveal_def initTestimonialSlide_def cl co ar)
  have t: "v\<lparr>thrown := False\<rparr> = v"
    using assms(4) by simp
  have "script_reveal loading early v = fold add_visible (qsa FadeUp v @ qsa WhyCard v) v"
    using assms by (simp add: script_reveal_def and_then_def Let_def ll on t)
  then show ?thesis by (auto simp: fold_add_visible_nth mem_qsa)
qed

section \<open>Facts about rounding to a double\<close>

lemma rne_int [simp]: "rne (real_of_int n) = n"
  by (simp add: rne_def)

lemma rne_lower: "real_of_int n \<le> y \<Longrightarrow> n \<le> rne y"
proof -
  assume "real_of_int n \<le> y"
  then have "n \<le> \<lfloor>y\<rfloor>" by (simp add: le_floor_iff)
  then show ?thesis by (auto simp: rne_def Let_def)
qed

lemma rne_upper: "y \<le> real_of_int n \<Longrightarrow> rne y \<le> n"
proof -
  assume a: "y \<le> real_of_int n"
  show ?thesis
  proof (cases "y = real_of_int \<lfloor>y\<rfloor>")
    case True
    then have "rne y = \<lfloor>y\<rfloor>" by (metis rne_int)
    moreover have "\<lfloor>y\<rfloor> \<le> n" using a by (simp add: floor_le_iff)
    ultimately show ?thesis by simp
  next
    case False
    then have "real_of_int \<lfloor>y\<rfloor> < y"
      using of_int_floor_le[of y] by linarith
    with a have "real_of_int \<lfloor>y\<rfloor> < real_of_int n" by linarith
    then have "\<lfloor>y\<rfloor> + 1 \<le> n" by simp
    moreover have "rne y \<le> \<lfloor>y\<rfloor> + 1" by (simp add: rne_def Let_def)
    ultimately show ?thesis by simp
  qed
qed

lemma floor_log2_bounds:
  assumes "0 < x"
  shows "2 powr real_of_int \<lfloor>log 2 x\<rfloor> \<le> x" and "x < 2 powr real_of_int (\<lfloor>log 2 x\<rfloor> + 1)"
proof -
  have "real_of_int \<lfloor>log 2 x\<rfloor> \<le> log 2 x" by simp
  then have "2 powr real_of_int \<lfloor>log 2 x\<rfloor> \<le> 2 powr log 2 x"
    by (rule powr_mono) simp
  then show "2 powr real_of_int \<lfloor>log 2 x\<rfloor> \<le> x" using assms by simp
  have "log 2 x < real_of_int (\<lfloor>log 2 x\<rfloor> + 1)" by linarith
  then have "2 powr log 2 x < 2 powr real_of_int (\<lfloor>log 2 x\<rfloor> + 1)"
    by (rule powr_less_mono) simp
  then show "x < 2 powr real_of_int (\<lfloor>log 2 x\<rfloor> + 1)" using assms by simp
qed

lemma two_powr_int: "0 \<le> j \<Longrightarrow> 2 powr real_of_int j = real_of_int (2 ^ nat j)"
proof -
  assume "0 \<le> j"
  then have "real_of_int j = real (nat j)" by simp
  then have "2 powr real_of_int j = (2::real) ^ nat j"
    by (simp only: powr_realpow[of 2, simplified])
  then show ?thesis by simp
qed

lemma two_powr_add:
  "2 powr real_of_int (a + b) = 2 powr real_of_int a * 2 powr real_of_int b"
  by (simp add: powr_add)

lemma two_powr_53: "2 powr real_of_int 53 = real_of_int (2 ^ 53)"
  using two_powr_int[of 53] by simp

text \<open>
  A double is a multiple of the unit of every binade that it reaches: with the unit
  \<open>2 powr (e - 52)\<close> of the binade of exponent \<open>e\<close>, a double is either a multiple of the unit
  or of smaller magnitude than \<open>2 powr e\<close>.
\<close>

lemma repr_grid:
  assumes "representable d"
  shows "(\<exists>n::int. d = real_of_int n * 2 powr real_of_int (e - 52)) \<or>
         (\<bar>d\<bar> < 2 powr real_of_int e \<and> - 1022 < e)"
proof -
  from assms obtain m k :: int where
    mk: "\<bar>m\<bar> < 2 ^ 53" "- 1074 \<le> k" "d = real_of_int m * 2 powr real_of_int k"
    unfolding representable_def by blast
  show ?thesis
  proof (cases "e - 52 \<le> k")
    case True
    then have j: "0 \<le> k - (e - 52)" by simp
    have "2 powr real_of_int k = 2 powr real_of_int ((k - (e - 52)) + (e - 52))" by simp
    also have "\<dots> = 2 powr real_of_int (k - (e - 52)) * 2 powr real_of_int (e - 52)"
      by (rule two_powr_add)
    also have "\<dots> = real_of_int (2 ^ nat (k - (e - 52))) * 2 powr real_of_int (e - 52)"
      by (simp only: two_powr_int[OF j])
    finally have "d = real_of_int (m * 2 ^ nat (k - (e - 52))) * 2 powr real_of_int (e - 52)"
      using mk(3) by simp
    then show ?thesis by blast
  next
    case False
    then have ke: "k + 53 \<le> e" by simp
    with mk(2) have e: "- 1022 < e" by simp
    have "\<bar>d\<bar> = real_of_int \<bar>m\<bar> * 2 powr real_of_int k"
      using mk(3) by (simp add: abs_mult)
    also have "\<dots> < real_of_int (2 ^ 53) * 2 powr real_of_int k"
      using mk(1) by (intro mult_strict_right_mono) simp_all
    also have "\<dots> = 2 powr real_of_int 53 * 2 powr real_of_int k"
      by (simp only: two_powr_53)
    also have "\<dots> = 2 powr real_of_int (53 + k)"
      by (simp only: two_powr_add)
    also have "\<dots> \<le> 2 powr real_of_int e"
      using ke by (intro powr_mono) simp_all
    finally show ?thesis using e by blast
  qed
qed

lemma representable_int: "\<bar>n\<bar> \<le> 2 ^ 53 \<Longrightarrow> representable (real_of_int n)"
proof -
  assume a: "\<bar>n\<bar> \<le> 2 ^ 53"
  show ?thesis
  proof (cases "\<bar>n\<bar> < 2 ^ 53")
    case True
    then show ?thesis
      unfolding representable_def by (intro exI[of _ n] exI[of _ 0]) simp
  next
    case False
    with a have "\<bar>n\<bar> = 2 ^ 53" by simp
    then have "n = 2 ^ 53 \<or> n = - (2 ^ 53)" by linarith
    then show ?thesis
    proof
      assume "n = 2 ^ 53"
      then show ?thesis
        unfolding representable_def
        by (intro exI[of _ 1] exI[of _ 53]) (simp add: two_powr_53)
    next
      assume "n = - (2 ^ 53)"
      then show ?thesis
        unfolding representable_def
        by (intro exI[of _ "- 1"] exI[of _ 53]) (simp add: two_powr_53)
    qed
  qed
qed

lemma fl_0 [simp]: "fl 0 = 0"
  by (simp add: fl_def)

lemma fl_unfold:
  assumes "x \<noteq> 0" and "e = max \<lfloor>log 2 \<bar>x\<bar>\<rfloor> (- 1022)" and "u = 2 powr real_of_int (e - 52)"
  shows "fl x = real_of_int (rne (x / u)) * u"
  using assms by (simp add: fl_def Let_def)

lemma exponent_unclipped:
  assumes "x \<noteq> 0" and "e = max \<lfloor>log 2 \<bar>x\<bar>\<rfloor> (- 1022)" and "- 1022 < e"
  shows "2 powr real_of_int e \<le> \<bar>x\<bar>"
proof -
  from assms(2,3) have "e = \<lfloor>log 2 \<bar>x\<bar>\<rfloor>" by simp
  with floor_log2_bounds(1)[of "\<bar>x\<bar>"] assms(1) show ?thesis by simp
qed

text \<open>A double rounds to itself.\<close>

lemma fl_exact:
  assumes "representable d"
  shows "fl d = d"
proof (cases "d = 0")
  case True
  then show ?thesis by simp
next
  case False
  define e where "e = max \<lfloor>log 2 \<bar>d\<bar>\<rfloor> (- 1022)"
  define u where "u = 2 powr real_of_int (e - 52)"
  have u: "0 < u" by (simp add: u_def)
  from repr_grid[OF assms, of e]
  have "\<exists>n::int. d = real_of_int n * u"
    using exponent_unclipped[OF False e_def] by (auto simp: u_def)
  then obtain n :: int where n: "d = real_of_int n * u" ..
  then have "d / u = real_of_int n" using u by simp
  then have "rne (d / u) = n" by simp
  then show ?thesis using fl_unfold[OF False e_def u_def] n by simp
qed

text \<open>Rounding does not cross a double.\<close>

lemma fl_ge:
  assumes "representable d" and "0 < d" and "d \<le> x"
  shows "d \<le> fl x"
proof -
  from assms have x: "x \<noteq> 0" "0 < x" by simp_all
  define e where "e = max \<lfloor>log 2 \<bar>x\<bar>\<rfloor> (- 1022)"
  define u where "u = 2 powr real_of_int (e - 52)"
  have u: "0 < u" by (simp add: u_def)
  note f = fl_unfold[OF x(1) e_def u_def]
  from repr_grid[OF assms(1), of e] show ?thesis
  proof
    assume "\<exists>n::int. d = real_of_int n * 2 powr real_of_int (e - 52)"
    then obtain n :: int where n: "d = real_of_int n * u" by (auto simp: u_def)
    then have "real_of_int n \<le> x / u" using assms(3) u by (simp add: pos_le_divide_eq)
    then have "n \<le> rne (x / u)" by (rule rne_lower)
    then have "real_of_int n * u \<le> real_of_int (rne (x / u)) * u"
      using u by (intro mult_right_mono) simp_all
    then show ?thesis by (simp add: f n)
  next
    assume a: "\<bar>d\<bar> < 2 powr real_of_int e \<and> - 1022 < e"
    then have "2 powr real_of_int e \<le> x"
      using exponent_unclipped[OF x(1) e_def] x(2) by simp
    moreover have "2 powr real_of_int e = real_of_int (2 ^ 52) * u"
    proof -
      have "2 powr real_of_int e = 2 powr real_of_int (52 + (e - 52))" by simp
      also have "\<dots> = 2 powr real_of_int 52 * u"
        unfolding u_def by (rule two_powr_add)
      also have "2 powr real_of_int 52 = real_of_int (2 ^ 52)"
        using two_powr_int[of 52] by simp
      finally show ?thesis .
    qed
    ultimately have "real_of_int (2 ^ 52) \<le> x / u" using u by (simp add: pos_le_divide_eq)
    then have "2 ^ 52 \<le> rne (x / u)" by (rule rne_lower)
    then have "real_of_int (2 ^ 52) * u \<le> real_of_int (rne (x / u)) * u"
      using u by (intro mult_right_mono) simp_all
    then have "2 powr real_of_int e \<le> fl x"
      using \<open>2 powr real_of_int e = real_of_int (2 ^ 52) * u\<close> by (simp add: f)
    with a assms(2) show ?thesis by simp
  qed
qed

lemma fl_le:
  assumes "representable d" and "0 < x" and "x \<le> d"
  shows "fl x \<le> d"
proof -
  from assms have x: "x \<noteq> 0" by simp
  define e where "e = max \<lfloor>log 2 \<bar>x\<bar>\<rfloor> (- 1022)"
  define u where "u = 2 powr real_of_int (e - 52)"
  have u: "0 < u" by (simp add: u_def)
  note f = fl_unfold[OF x e_def u_def]
  from repr_grid[OF assms(1), of e] show ?thesis
  proof
    assume "\<exists>n::int. d = real_of_int n * 2 powr real_of_int (e - 52)"
    then obtain n :: int where n: "d = real_of_int n * u" by (auto simp: u_def)
    then have "x / u \<le> real_of_int n" using assms(3) u by (simp add: pos_divide_le_eq)
    then have "rne (x / u) \<le> n" by (rule rne_upper)
    then have "real_of_int (rne (x / u)) * u \<le> real_of_int n * u"
      using u by (intro mult_right_mono) simp_all
    then show ?thesis by (simp add: f n)
  next
    assume a: "\<bar>d\<bar> < 2 powr real_of_int e \<and> - 1022 < e"
    then have "2 powr real_of_int e \<le> x"
      using exponent_unclipped[OF x e_def] assms(2) by simp
    with a assms(3) show ?thesis by linarith
  qed
qed

lemma fl_nonneg: "0 \<le> x \<Longrightarrow> 0 \<le> fl x"
proof (cases "x = 0")
  case False
  assume "0 \<le> x"
  define e where "e = max \<lfloor>log 2 \<bar>x\<bar>\<rfloor> (- 1022)"
  define u where "u = 2 powr real_of_int (e - 52)"
  have u: "0 < u" by (simp add: u_def)
  have "real_of_int 0 \<le> x / u" using \<open>0 \<le> x\<close> u by simp
  then have "0 \<le> rne (x / u)" by (rule rne_lower)
  then show ?thesis using u by (simp add: fl_unfold[OF False e_def u_def])
qed simp

lemma fl_nonpos: "x \<le> 0 \<Longrightarrow> fl x \<le> 0"
proof (cases "x = 0")
  case False
  assume "x \<le> 0"
  define e where "e = max \<lfloor>log 2 \<bar>x\<bar>\<rfloor> (- 1022)"
  define u where "u = 2 powr real_of_int (e - 52)"
  have u: "0 < u" by (simp add: u_def)
  have "x / u \<le> real_of_int 0" using \<open>x \<le> 0\<close> u by (simp add: divide_nonpos_pos)
  then have "rne (x / u) \<le> 0" by (rule rne_upper)
  then show ?thesis using u by (simp add: fl_unfold[OF False e_def u_def] mult_nonpos_nonneg)
qed simp

lemma fl_between:
  assumes "representable d" and "0 \<le> x" and "x \<le> d"
  shows "0 \<le> fl x" and "fl x \<le> d"
proof -
  show "0 \<le> fl x" using assms(2) by (rule fl_nonneg)
  show "fl x \<le> d"
  proof (cases "x = 0")
    case True
    then show ?thesis using assms by simp
  next
    case False
    with assms(2) have "0 < x" by simp
    from fl_le[OF assms(1) this assms(3)] show ?thesis .
  qed
qed

lemma fl_upper:
  assumes "representable d" and "0 \<le> d" and "x \<le> d"
  shows "fl x \<le> d"
proof (cases "0 < x")
  case True
  from fl_le[OF assms(1) this assms(3)] show ?thesis .
next
  case False
  then have "fl x \<le> 0" by (intro fl_nonpos) simp
  with assms(2) show ?thesis by simp
qed

text \<open>The result of rounding is a double.\<close>

lemma representable_fl: "representable (fl x)"
proof (cases "x = 0")
  case True
  have "representable (real_of_int 0)" by (rule representable_int) simp
  with True show ?thesis by simp
next
  case False
  define e where "e = max \<lfloor>log 2 \<bar>x\<bar>\<rfloor> (- 1022)"
  define u where "u = 2 powr real_of_int (e - 52)"
  define n where "n = rne (x / u)"
  have u: "0 < u" by (simp add: u_def)
  have f: "fl x = real_of_int n * u"
    unfolding n_def by (rule fl_unfold[OF False e_def u_def])
  have e: "- 1022 \<le> e" "\<lfloor>log 2 \<bar>x\<bar>\<rfloor> \<le> e" by (simp_all add: e_def)
  have p: "2 powr real_of_int (e + 1) = real_of_int (2 ^ 53) * u"
  proof -
    have eq: "e + 1 = 53 + (e - 52)" by simp
    have "2 powr real_of_int (e + 1) = 2 powr real_of_int (53 + (e - 52))"
      by (subst eq) (rule refl)
    also have "\<dots> = 2 powr real_of_int 53 * u"
      unfolding u_def by (rule two_powr_add)
    finally show ?thesis by (simp only: two_powr_53)
  qed
  have "\<bar>x\<bar> < 2 powr real_of_int (\<lfloor>log 2 \<bar>x\<bar>\<rfloor> + 1)"
    using floor_log2_bounds(2)[of "\<bar>x\<bar>"] False by simp
  also have "\<dots> \<le> 2 powr real_of_int (e + 1)"
    using e(2) by (intro powr_mono) simp_all
  finally have "\<bar>x\<bar> < real_of_int (2 ^ 53) * u" by (simp only: p)
  then have lt: "x < real_of_int (2 ^ 53) * u" "- x < real_of_int (2 ^ 53) * u"
    by (simp_all only: abs_less_iff)
  have b: "x / u \<le> real_of_int (2 ^ 53)" "real_of_int (- (2 ^ 53)) \<le> x / u"
  proof -
    from lt(1) u show "x / u \<le> real_of_int (2 ^ 53)"
      by (simp only: pos_divide_le_eq[OF u])
    from lt(2) have "real_of_int (- (2 ^ 53)) * u \<le> x" by simp
    then show "real_of_int (- (2 ^ 53)) \<le> x / u"
      by (simp only: pos_le_divide_eq[OF u])
  qed
  have n: "n \<le> 2 ^ 53" "- (2 ^ 53) \<le> n"
    unfolding n_def using rne_upper[OF b(1)] rne_lower[OF b(2)] by simp_all
  show ?thesis
  proof (cases "\<bar>n\<bar> < 2 ^ 53")
    case True
    have "- 1074 \<le> e - 52" using e(1) by simp
    with True show ?thesis
      unfolding representable_def f u_def by blast
  next
    case F: False
    with n have "n = 2 ^ 53 \<or> n = - (2 ^ 53)" by linarith
    then have "fl x = real_of_int 1 * 2 powr real_of_int (e + 1) \<or>
               fl x = real_of_int (- 1) * 2 powr real_of_int (e + 1)"
      unfolding f p by auto
    moreover have "- 1074 \<le> e + 1" using e(1) by simp
    moreover have "\<bar>1::int\<bar> < 2 ^ 53" "\<bar>- 1::int\<bar> < 2 ^ 53" by simp_all
    ultimately show ?thesis
      unfolding representable_def by blast
  qed
qed

lemma fl_fl [simp]: "fl (fl x) = fl x"
  by (rule fl_exact) (rule representable_fl)

lemma representable_dyadic:
  assumes "\<bar>m\<bar> < 2 ^ 53" and "j \<le> 1074"
  shows "representable (real_of_int m / 2 ^ j)"
proof -
  have "2 powr real_of_int (- int j) = 1 / 2 ^ j"
    by (simp add: powr_minus powr_realpow inverse_eq_divide)
  then have "real_of_int m / 2 ^ j = real_of_int m * 2 powr real_of_int (- int j)" by simp
  moreover have "- 1074 \<le> - int j" using assms(2) by simp
  ultimately show ?thesis using assms(1) unfolding representable_def by blast
qed

section \<open>The counter animation: claims\<close>

lemma parse_target_exact: "\<bar>T\<bar> \<le> 2 ^ 53 \<Longrightarrow> parse_target T = real_of_int T"
  unfolding parse_target_def by (intro fl_exact representable_int)

lemma representable_1: "representable 1"
  using representable_int[of 1] by simp

lemma progress_le_1: "progress duration start tnow \<le> 1"
  by (simp add: progress_def)

lemma progress_start: "progress duration start start = 0"
  by (simp add: progress_def)

lemma progress_nonneg:
  assumes "start \<le> tnow" and "0 < duration"
  shows "0 \<le> progress duration start tnow"
proof -
  have "0 \<le> fl (tnow - start)" using assms(1) by (intro fl_nonneg) simp
  then have "0 \<le> fl (tnow - start) / duration" using assms(2) by simp
  then have "0 \<le> fl (fl (tnow - start) / duration)" by (rule fl_nonneg)
  then show ?thesis by (simp add: progress_def)
qed

lemma progress_done:
  assumes "representable duration" and "0 < duration" and "duration \<le> tnow - start"
  shows "progress duration start tnow = 1"
proof -
  have "duration \<le> fl (tnow - start)" by (rule fl_ge[OF assms])
  then have "1 \<le> fl (tnow - start) / duration"
    using assms(2) by (simp add: pos_le_divide_eq)
  then have "1 \<le> fl (fl (tnow - start) / duration)"
    by (intro fl_ge[OF representable_1]) simp_all
  then show ?thesis by (simp add: progress_def)
qed

lemma math_pow2_bounds:
  assumes "\<forall>x\<le>0. 0 \<le> approx x \<and> approx x \<le> 1" and "x \<le> 0"
  shows "0 \<le> math_pow2 approx x" and "math_pow2 approx x \<le> 1"
  using assms by (simp_all add: math_pow2_def)

lemma easeOutExpo_bounds:
  assumes "\<forall>x\<le>0. 0 \<le> approx x \<and> approx x \<le> 1" and "0 \<le> t"
  shows "0 \<le> easeOutExpo approx t" and "easeOutExpo approx t \<le> 1"
proof -
  have x: "fl (- 10 * t) \<le> 0" using assms(2) by (intro fl_nonpos) simp
  note b = math_pow2_bounds[OF assms(1) x]
  have l: "0 \<le> fl (1 - math_pow2 approx (fl (- 10 * t)))"
    using b(2) by (intro fl_nonneg) simp
  have "1 - math_pow2 approx (fl (- 10 * t)) \<le> 1" using b(1) by simp
  then have u: "fl (1 - math_pow2 approx (fl (- 10 * t))) \<le> 1"
    by (intro fl_upper[OF representable_1]) simp_all
  show "0 \<le> easeOutExpo approx t" using l by (simp add: easeOutExpo_def)
  show "easeOutExpo approx t \<le> 1" using u by (simp add: easeOutExpo_def)
qed

lemma easeOutExpo_0: "easeOutExpo approx 0 = 0"
  by (simp add: easeOutExpo_def math_pow2_def)

text \<open>
  The value of a frame, for a target that is a double: the two operations with
  \<open>startVal = 0\<close> are exact.
\<close>

lemma current_formula:
  assumes "representable target"
  shows "current approx target duration start tnow =
           math_round (fl (target * easeOutExpo approx (progress duration start tnow)))"
  using fl_exact[OF assms] by (simp add: current_def)

lemma math_round_int: "math_round (real_of_int n) = real_of_int n"
  by (simp add: math_round_def)

lemma current_bounds:
  assumes "0 \<le> T" and "T \<le> 2 ^ 53" and "\<forall>x\<le>0. 0 \<le> approx x \<and> approx x \<le> 1"
    and "start \<le> tnow" and "0 < duration"
  shows "current approx (real_of_int T) duration start tnow \<le> real_of_int T"
    and "0 \<le> current approx (real_of_int T) duration start tnow"
proof -
  let ?e = "easeOutExpo approx (progress duration start tnow)"
  have r: "representable (real_of_int T)" using assms(1,2) by (intro representable_int) simp
  note c = current_formula[OF r, of approx duration start tnow]
  note e = easeOutExpo_bounds[OF assms(3) progress_nonneg[OF assms(4,5)]]
  have "real_of_int T * ?e \<le> real_of_int T * 1"
    using assms(1) e(2) by (intro mult_left_mono) simp_all
  then have "fl (real_of_int T * ?e) \<le> real_of_int T"
    using assms(1) by (intro fl_upper[OF r]) simp_all
  then have "fl (real_of_int T * ?e) + 1 / 2 < real_of_int (T + 1)" by simp
  then have "\<lfloor>fl (real_of_int T * ?e) + 1 / 2\<rfloor> \<le> T"
    by (simp only: floor_less_iff[symmetric])
  then show "current approx (real_of_int T) duration start tnow \<le> real_of_int T"
    by (simp add: c math_round_def)
  have "0 \<le> real_of_int T * ?e" using assms(1) e(1) by simp
  then have "0 \<le> fl (real_of_int T * ?e)" by (rule fl_nonneg)
  then have "0 \<le> \<lfloor>fl (real_of_int T * ?e) + 1 / 2\<rfloor>" by simp
  then show "0 \<le> current approx (real_of_int T) duration start tnow"
    by (simp add: c math_round_def)
qed

lemma number_to_string_int:
  "\<bar>n\<bar> \<le> 2 ^ 53 \<Longrightarrow> number_to_string (real_of_int n) = Some (show_int n)"
proof -
  assume "\<bar>n\<bar> \<le> 2 ^ 53"
  then have "\<bar>real_of_int n\<bar> \<le> 2 ^ 53"
    by (metis of_int_abs of_int_le_iff of_int_numeral of_int_power)
  then show ?thesis by (simp add: number_to_string_def)
qed

lemma digits_98: "digits 98 = [57, 56]"
  by (simp add: digits.simps)

text \<open>The correctly rounded power meets what the theorems ask of \<open>Math.pow\<close>.\<close>

lemma rounded_pow2_bounds:
  "0 \<le> rounded_pow2 x" "x \<le> 0 \<Longrightarrow> rounded_pow2 x \<le> 1"
proof -
  show "0 \<le> rounded_pow2 x" unfolding rounded_pow2_def by (intro fl_nonneg) simp
  assume "x \<le> 0"
  then have "2 powr x \<le> 2 powr 0" by (intro powr_mono) simp_all
  then show "rounded_pow2 x \<le> 1"
    unfolding rounded_pow2_def by (intro fl_upper[OF representable_1]) simp_all
qed

lemma fl_of_int: "\<bar>n\<bar> \<le> 2 ^ 53 \<Longrightarrow> fl (real_of_int n) = real_of_int n"
  by (intro fl_exact representable_int)

lemma fl_dyadic: "\<bar>m\<bar> < 2 ^ 53 \<Longrightarrow> j \<le> 1074 \<Longrightarrow> fl (real_of_int m / 2 ^ j) = real_of_int m / 2 ^ j"
  by (intro fl_exact representable_dyadic)

lemma fl_examples:
  "fl 1 = 1" "fl 98 = 98" "fl 800 = 800" "fl 1600 = 1600" "fl 1616 = 1616" "fl (- 5) = - 5"
  "fl (1 / 2) = 1 / 2" "fl (1 / 32) = 1 / 32" "fl (31 / 32) = 31 / 32"
  "fl (1519 / 16) = 1519 / 16"
  using fl_of_int[of 1] fl_of_int[of 98] fl_of_int[of 800] fl_of_int[of 1600]
    fl_of_int[of 1616] fl_of_int[of "- 5"]
    fl_dyadic[of 1 1] fl_dyadic[of 1 5] fl_dyadic[of 31 5] fl_dyadic[of 1519 4]
  by simp_all

lemma rounded_pow2_example: "rounded_pow2 (- 5) = 1 / 32"
proof -
  have "2 powr (- 5 :: real) = 1 / 32"
    using powr_realpow[of 2 5] by (simp add: powr_minus inverse_eq_divide)
  then show ?thesis by (simp only: rounded_pow2_def fl_examples)
qed

lemma frame_example:
  "progress 1600 0 800 = 1 / 2"
  "easeOutExpo rounded_pow2 (1 / 2) = 31 / 32"
  "current rounded_pow2 98 1600 0 800 = 95"
proof -
  show p: "progress 1600 0 800 = 1 / 2"
    by (simp add: progress_def fl_examples)
  show e: "easeOutExpo rounded_pow2 (1 / 2) = 31 / 32"
    by (simp add: easeOutExpo_def math_pow2_def fl_examples rounded_pow2_example)
  show "current rounded_pow2 98 1600 0 800 = 95"
    by (simp add: current_def p e fl_examples math_round_def)
qed

text \<open>
  The integer \<open>2 ^ 53 + 1\<close> lies half way between two doubles and rounds to the even one.
\<close>

lemma fl_tie: "fl 9007199254740993 = 9007199254740992"
proof -
  have p: "2 powr (53::real) = 9007199254740992" "2 powr (54::real) = 18014398509481984"
    using powr_realpow[of 2 53] powr_realpow[of 2 54] by simp_all
  have "\<lfloor>log 2 (9007199254740993::real)\<rfloor> = 53"
  proof (rule floor_unique)
    show "real_of_int 53 \<le> log 2 9007199254740993"
      by (simp add: le_log_iff p)
    show "log 2 9007199254740993 < real_of_int 53 + 1"
      by (simp add: log_less_iff p)
  qed
  then have e: "max \<lfloor>log 2 \<bar>9007199254740993::real\<bar>\<rfloor> (- 1022) = 53" by simp
  have u: "2 powr real_of_int (53 - 52) = 2" by simp
  have f: "\<lfloor>9007199254740993 / 2 :: real\<rfloor> = 4503599627370496" by linarith
  have "rne (9007199254740993 / 2) = 4503599627370496"
    unfolding rne_def Let_def f by simp
  then show ?thesis
    using fl_unfold[of 9007199254740993 53 2] e u by simp
qed

lemma digits_examples:
  "show_int 0 = ascii ''0''" "show_int 98 = ascii ''98''" "show_int 95 = ascii ''95''"
  "show_int 9007199254740992 = ascii ''9007199254740992''"
  "show_int 9007199254740993 = ascii ''9007199254740993''"
  by (simp_all add: show_int_def digits.simps ascii_def)

text \<open>
  Claim C9, as stated: for every integer target no intermediate frame shows a value
  greater than the target, and the last frame shows the target. With the target \<open>-5\<close> the
  frame at the start of the animation is an intermediate frame and shows \<open>0\<close>. With the
  target \<open>2 ^ 53 + 1\<close> the number that \<open>parseInt\<close> returns is \<open>2 ^ 53\<close>, and the last frame shows
  \<open>9007199254740992\<close>.
\<close>

theorem counter_target_counterexample:
  "parse_target (- 5) = - 5 \<and>
   step rounded_pow2 (parse_target (- 5)) [] 1600 0 0 = (Some (ascii ''0''), True) \<and>
   current rounded_pow2 (parse_target (- 5)) 1600 0 0 = 0 \<and>
   current rounded_pow2 (parse_target (- 5)) 1600 0 0 > parse_target (- 5) \<and>
   parse_target 9007199254740993 = 9007199254740992 \<and>
   step rounded_pow2 (parse_target 9007199254740993) [] 1600 0 1600
     = (Some (ascii ''9007199254740992''), False) \<and>
   show_int 9007199254740993 = ascii ''9007199254740993''"
proof -
  have t: "parse_target (- 5) = - 5"
    using parse_target_exact[of "- 5"] by simp
  have c: "current rounded_pow2 (- 5) 1600 0 0 = 0"
    by (simp add: current_def progress_start easeOutExpo_0 math_round_def)
  have n: "number_to_string 0 = Some (ascii ''0'')"
    using number_to_string_int[of 0] by (simp add: digits_examples)
  have s: "step rounded_pow2 (- 5) [] 1600 0 0 = (Some (ascii ''0''), True)"
    by (simp add: step_def progress_start c concat_suffix_def n)
  have b: "parse_target 9007199254740993 = 9007199254740992"
    by (simp add: parse_target_def fl_tie)
  have p: "progress 1600 0 1600 = 1"
    by (simp add: progress_def fl_examples)
  have m: "number_to_string 9007199254740992 = Some (ascii ''9007199254740992'')"
    using number_to_string_int[of 9007199254740992] by (simp add: digits_examples)
  have l: "step rounded_pow2 9007199254740992 [] 1600 0 1600
     = (Some (ascii ''9007199254740992''), False)"
    by (simp add: step_def p concat_suffix_def m)
  show ?thesis
    unfolding t b using c s l by (simp add: digits_examples)
qed

text \<open>
  Claim C9, amended to targets from 0 to \<open>2 ^ 53\<close> and to the arithmetic of the code. The
  engine's \<open>Math.pow(2, x)\<close> is assumed to lie between 0 and 1 for \<open>x \<le> 0\<close>. The number
  that \<open>parseInt\<close> returns is the target. The frame at the start time shows 0 followed by
  the suffix and requests another frame. The easing function is exactly 1 at \<open>t = 1\<close>. The
  value of a frame is \<open>Math.round\<close> of the double product of the target and the eased
  progress, where the eased progress before the end is \<open>1 - Math.pow(2, -10 * progress)\<close> in
  doubles; with time stamps that do not run backwards it is an integer from 0 to the
  target, so it never exceeds the target, and the frame shows it in decimal digits
  followed by the suffix. A frame at or after the end of the duration shows exactly the target
  followed by the suffix and is the last one. The target 98 with the suffix \<open>%\<close> ends on
  \<open>98%\<close>.
\<close>

theorem counter_frames:
  assumes "0 \<le> T" and "T \<le> 2 ^ 53"
    and "representable duration" and "0 < duration"
    and "\<forall>x\<le>0. 0 \<le> approx x \<and> approx x \<le> 1"
  shows
    "parse_target T = real_of_int T \<and>
     step approx (parse_target T) suffix duration start start = (Some (show_int 0 @ suffix), True) \<and>
     easeOutExpo approx 1 = 1 \<and>
     current approx (parse_target T) duration start tnow
       = math_round (fl (real_of_int T * easeOutExpo approx (progress duration start tnow))) \<and>
     (progress duration start tnow < 1 \<longrightarrow>
        easeOutExpo approx (progress duration start tnow)
          = fl (1 - math_pow2 approx (fl (- 10 * progress duration start tnow)))) \<and>
     (start \<le> tnow \<longrightarrow>
        (\<exists>n. 0 \<le> n \<and> n \<le> T \<and>
             current approx (parse_target T) duration start tnow = real_of_int n \<and>
             (progress duration start tnow < 1 \<longrightarrow>
                step approx (parse_target T) suffix duration start tnow
                  = (Some (show_int n @ suffix), True)))) \<and>
     (duration \<le> tnow - start \<longrightarrow>
        step approx (parse_target T) suffix duration start tnow
          = (Some (show_int T @ suffix), False) \<and>
        current approx (parse_target T) duration start tnow = real_of_int T) \<and>
     (1600 \<le> tnow - start \<longrightarrow>
        frames approx (parse_target T) suffix start (tnow # later) = [Some (show_int T @ suffix)]) \<and>
     show_int 98 @ [37] = ascii ''98%''"
proof -
  have aT: "\<bar>T\<bar> \<le> 2 ^ 53" using assms(1,2) by simp
  have r: "representable (real_of_int T)" using aT by (rule representable_int)
  have 1: "parse_target T = real_of_int T" using aT by (rule parse_target_exact)
  have sT: "concat_suffix (real_of_int T) suffix = Some (show_int T @ suffix)"
    by (simp add: concat_suffix_def number_to_string_int[OF aT])
  have c0: "current approx (real_of_int T) duration start start = real_of_int 0"
    by (simp add: current_formula[OF r] progress_start easeOutExpo_0 math_round_def)
  have 2: "step approx (parse_target T) suffix duration start start
      = (Some (show_int 0 @ suffix), True)"
    unfolding 1 step_def c0 concat_suffix_def
    by (simp add: progress_start number_to_string_int[of 0, simplified])
  have 3: "easeOutExpo approx 1 = 1" by (simp add: easeOutExpo_def)
  have 4: "current approx (parse_target T) duration start tnow
       = math_round (fl (real_of_int T * easeOutExpo approx (progress duration start tnow)))"
    unfolding 1 by (rule current_formula[OF r])
  have 5: "progress duration start tnow < 1 \<longrightarrow>
        easeOutExpo approx (progress duration start tnow)
          = fl (1 - math_pow2 approx (fl (- 10 * progress duration start tnow)))"
    by (simp add: easeOutExpo_def)
  have 7: "start \<le> tnow \<longrightarrow>
        (\<exists>n. 0 \<le> n \<and> n \<le> T \<and>
             current approx (parse_target T) duration start tnow = real_of_int n \<and>
             (progress duration start tnow < 1 \<longrightarrow>
                step approx (parse_target T) suffix duration start tnow
                  = (Some (show_int n @ suffix), True)))"
  proof
    assume s: "start \<le> tnow"
    define n where "n = \<lfloor>fl (real_of_int T * easeOutExpo approx (progress duration start tnow))
        + 1 / 2\<rfloor>"
    have c: "current approx (real_of_int T) duration start tnow = real_of_int n"
      by (simp add: current_formula[OF r] math_round_def n_def)
    note cb = current_bounds[OF assms(1,2,5) s assms(4)]
    from cb(1) have u: "n \<le> T" unfolding c by simp
    from cb(2) have l: "0 \<le> n" unfolding c by simp
    from l u assms(2) have "\<bar>n\<bar> \<le> 2 ^ 53" by simp
    then have "concat_suffix (real_of_int n) suffix = Some (show_int n @ suffix)"
      by (simp add: concat_suffix_def number_to_string_int)
    then have "progress duration start tnow < 1 \<longrightarrow>
                step approx (real_of_int T) suffix duration start tnow
                  = (Some (show_int n @ suffix), True)"
      by (simp add: step_def c)
    with l u c show "\<exists>n. 0 \<le> n \<and> n \<le> T \<and>
             current approx (parse_target T) duration start tnow = real_of_int n \<and>
             (progress duration start tnow < 1 \<longrightarrow>
                step approx (parse_target T) suffix duration start tnow
                  = (Some (show_int n @ suffix), True))"
      unfolding 1 by blast
  qed
  have 8: "duration \<le> tnow - start \<longrightarrow>
        step approx (parse_target T) suffix duration start tnow
          = (Some (show_int T @ suffix), False) \<and>
        current approx (parse_target T) duration start tnow = real_of_int T"
  proof
    assume "duration \<le> tnow - start"
    from progress_done[OF assms(3,4) this] have p: "progress duration start tnow = 1" .
    show "step approx (parse_target T) suffix duration start tnow
          = (Some (show_int T @ suffix), False) \<and>
        current approx (parse_target T) duration start tnow = real_of_int T"
      unfolding 1
      by (simp add: step_def p sT current_formula[OF r] easeOutExpo_def fl_exact[OF r]
          math_round_int)
  qed
  have 9: "1600 \<le> tnow - start \<longrightarrow>
        frames approx (parse_target T) suffix start (tnow # later) = [Some (show_int T @ suffix)]"
  proof
    assume a: "1600 \<le> tnow - start"
    have "representable 1600" using representable_int[of 1600] by simp
    from progress_done[OF this _ a] have p: "progress 1600 start tnow = 1" by simp
    show "frames approx (parse_target T) suffix start (tnow # later) = [Some (show_int T @ suffix)]"
      unfolding 1 by (simp add: step_def p sT)
  qed
  have 10: "show_int 98 @ [37] = ascii ''98%''"
    by (simp add: show_int_def digits_98 ascii_def)
  show ?thesis
    by (intro conjI) (rule 1, rule 2, rule 3, rule 4, rule 5, rule 7, rule 8, rule 9, rule 10)
qed

theorem counter_frames_witness:
  "(0::int) \<le> 98 \<and> (98::int) \<le> 2 ^ 53 \<and> representable 1600 \<and> (0::real) < 1600 \<and>
   (\<forall>x. 0 \<le> rounded_pow2 x) \<and> rounded_pow2 0 = 1 \<and> rounded_pow2 (- 5) = 1 / 32 \<and>
   parse_target 98 = 98 \<and>
   step rounded_pow2 (parse_target 98) [37] 1600 0 0 = (Some (ascii ''0%''), True) \<and>
   progress 1600 0 800 = 1 / 2 \<and>
   current rounded_pow2 (parse_target 98) 1600 0 800 = 95 \<and>
   step rounded_pow2 (parse_target 98) [37] 1600 0 800 = (Some (ascii ''95%''), True) \<and>
   step rounded_pow2 (parse_target 98) [37] 1600 0 1616 = (Some (ascii ''98%''), False) \<and>
   frames rounded_pow2 (parse_target 98) [37] 0 [0, 800, 1616, 1632]
     = [Some (ascii ''0%''), Some (ascii ''95%''), Some (ascii ''98%'')]"
proof -
  have h: "(0::int) \<le> 98" "(98::int) \<le> 2 ^ 53" "(0::real) < 1600" by simp_all
  have d: "representable 1600" using representable_int[of 1600] by simp
  have a: "\<forall>x. 0 \<le> rounded_pow2 x" "\<forall>x\<le>0. 0 \<le> rounded_pow2 x \<and> rounded_pow2 x \<le> 1"
    by (simp_all add: rounded_pow2_bounds)
  have z: "rounded_pow2 0 = 1" by (simp add: rounded_pow2_def fl_examples)
  note th = counter_frames[OF h(1,2) d h(3) a(2)]
  have t: "parse_target 98 = 98"
    using th[where suffix="[]" and start=0 and tnow=0 and later="[]"] by simp
  have s: "show_int 98 @ [37] = ascii ''98%''"
    using th[where suffix="[]" and start=0 and tnow=0 and later="[]"] by blast
  have "step rounded_pow2 (parse_target 98) [37] 1600 0 0 = (Some (show_int 0 @ [37]), True)"
    using th[where suffix="[37]" and start=0 and tnow=0 and later="[]"] by blast
  then have 0: "step rounded_pow2 (parse_target 98) [37] 1600 0 0 = (Some (ascii ''0%''), True)"
    by (simp add: digits_examples ascii_def)
  have p: "progress 1600 0 800 = 1 / 2" by (rule frame_example(1))
  have c: "current rounded_pow2 (parse_target 98) 1600 0 800 = 95"
    unfolding t by (rule frame_example(3))
  have "(0::real) \<le> 800 \<longrightarrow>
        (\<exists>n. 0 \<le> n \<and> n \<le> 98 \<and>
             current rounded_pow2 (parse_target 98) 1600 0 800 = real_of_int n \<and>
             (progress 1600 0 800 < 1 \<longrightarrow>
                step rounded_pow2 (parse_target 98) [37] 1600 0 800
                  = (Some (show_int n @ [37]), True)))"
    using th[where suffix="[37]" and start=0 and tnow=800 and later="[]"] by blast
  then obtain n where
    n: "current rounded_pow2 (parse_target 98) 1600 0 800 = real_of_int n"
      "progress 1600 0 800 < 1 \<longrightarrow>
         step rounded_pow2 (parse_target 98) [37] 1600 0 800 = (Some (show_int n @ [37]), True)"
    by auto
  from n(1) c have "n = 95" by simp
  with n(2) p have 1: "step rounded_pow2 (parse_target 98) [37] 1600 0 800
      = (Some (ascii ''95%''), True)"
    by (simp add: digits_examples ascii_def)
  have "(1600::real) \<le> 1616 - 0 \<longrightarrow>
        step rounded_pow2 (parse_target 98) [37] 1600 0 1616
          = (Some (show_int 98 @ [37]), False) \<and>
        current rounded_pow2 (parse_target 98) 1600 0 1616 = real_of_int 98"
    using th[where suffix="[37]" and start=0 and tnow=1616 and later="[]"] by blast
  then have 2: "step rounded_pow2 (parse_target 98) [37] 1600 0 1616
      = (Some (ascii ''98%''), False)"
    using s by simp
  have "(1600::real) \<le> 1616 - 0 \<longrightarrow>
        frames rounded_pow2 (parse_target 98) [37] 0 (1616 # [1632])
          = [Some (show_int 98 @ [37])]"
    using th[where suffix="[37]" and start=0 and tnow=1616 and later="[1632]"] by blast
  then have 3: "frames rounded_pow2 (parse_target 98) [37] 0 [1616, 1632]
      = [Some (ascii ''98%'')]"
    using s by simp
  have 4: "frames rounded_pow2 (parse_target 98) [37] 0 [0, 800, 1616, 1632]
     = [Some (ascii ''0%''), Some (ascii ''95%''), Some (ascii ''98%'')]"
    using 0 1 3 by simp
  from h d a(1) z rounded_pow2_example t 0 p c 1 2 4 show ?thesis by simp
qed

end
